theory Spec2Isabelle
  imports Main "HOL-Library.Sublist"
begin

section \<open>Paths\<close>

text \<open>
  An absolute, normalised POSIX path is the list of its segments; the filesystem root
  \<^verbatim>\<open>/\<close> is the empty list. \<^verbatim>\<open>path.dirname\<close> of the root is the root and
  \<^verbatim>\<open>path.basename\<close> of the root is the empty string, as in Node.
\<close>

type_synonym path = "string list"

definition dirname :: "path \<Rightarrow> path" where
  "dirname p = butlast p"

definition basename :: "path \<Rightarrow> string" where
  "basename p = (if p = [] then [] else last p)"

text \<open>The text of a path, as the strings the code holds: \<^verbatim>\<open>/a/b\<close>, and \<^verbatim>\<open>/\<close> for the root.\<close>

definition path_string :: "path \<Rightarrow> string" where
  "path_string p = (if p = [] then ''/'' else concat (map (\<lambda>s. CHR ''/'' # s) p))"

text \<open>\<^verbatim>\<open>String.prototype.split('/')\<close>.\<close>

primrec split_slash :: "string \<Rightarrow> string list" where
  "split_slash [] = [[]]"
| "split_slash (c # cs) =
     (if c = CHR ''/'' then [] # split_slash cs
      else (case split_slash cs of [] \<Rightarrow> [[c]] | w # ws \<Rightarrow> (c # w) # ws))"

text \<open>
  \<^verbatim>\<open>path.resolve\<close> with an absolute first argument, one further argument at a time: an
  empty argument is skipped, an absolute argument restarts from the root, and the
  segments \<^verbatim>\<open>.\<close>, \<^verbatim>\<open>..\<close> and the empty segment are normalised away.
\<close>

definition seg_step :: "path \<Rightarrow> string \<Rightarrow> path" where
  "seg_step cur s =
     (if s = [] \<or> s = ''.'' then cur else if s = ''..'' then butlast cur else cur @ [s])"

definition resolve_arg :: "path \<Rightarrow> string \<Rightarrow> path" where
  "resolve_arg cur a =
     (if a = [] then cur
      else foldl seg_step (if hd a = CHR ''/'' then [] else cur) (split_slash a))"

text \<open>\<^verbatim>\<open>Walker.relativeModule\<close>: \<^verbatim>\<open>path.resolve(rootPath, 'node_modules', moduleName)\<close>.\<close>

definition relativeModule :: "path \<Rightarrow> string \<Rightarrow> path" where
  "relativeModule rootPath moduleName =
     resolve_arg (resolve_arg rootPath ''node_modules'') moduleName"

section \<open>The filesystem\<close>

text \<open>
  The interface \<^verbatim>\<open>PackageJSON\<close>: of each of the three maps only the keys matter (the
  version ranges are never read), in the order \<^verbatim>\<open>for ... in\<close> enumerates them; a map that
  is missing from the descriptor enumerates no key.
\<close>

record PackageJSON =
  dependencies :: "string list"
  devDependencies :: "string list"
  optionalDependencies :: "string list"

text \<open>
  What \<^verbatim>\<open>readJson\<close> makes of a file: the descriptor it parses to, or a parse error. A
  file that parses to a value without the three maps (also \<^verbatim>\<open>null\<close>, for which the
  walker returns early) behaves as a descriptor with three empty maps does.
\<close>

datatype content = Json PackageJSON | Unparsable

datatype node = Dir | File content

text \<open>The filesystem is a finite table from paths to nodes; the first entry of a path counts.\<close>

type_synonym fs = "(path \<times> node) list"

datatype error =
    ResolutionError string path
  | ReadJsonError path
  | ENOENT path
  | ENOTDIR path

definition pathExists :: "fs \<Rightarrow> path \<Rightarrow> bool" where
  "pathExists fs p = (map_of fs p \<noteq> None)"

text \<open>
  The error of a system call on the path \<open>p\<close> that does not exist. The path is walked
  from the root, \<open>cur\<close> being the part already walked and the list the components still
  to come: \<^verbatim>\<open>ENOTDIR\<close> when a regular file is reached before the end of the path,
  \<^verbatim>\<open>ENOENT\<close> otherwise.
\<close>

fun stat_error :: "fs \<Rightarrow> path \<Rightarrow> string list \<Rightarrow> path \<Rightarrow> error" where
  "stat_error fs cur [] p = ENOENT p"
| "stat_error fs cur (x # xs) p =
     (case map_of fs cur of
        None \<Rightarrow> ENOENT p
      | Some Dir \<Rightarrow> stat_error fs (cur @ [x]) xs p
      | Some (File c) \<Rightarrow> ENOTDIR p)"

text \<open>\<^verbatim>\<open>fs.statSync(p).isDirectory()\<close>, which throws when \<open>p\<close> does not exist.\<close>

definition statIsDirectory :: "fs \<Rightarrow> path \<Rightarrow> error + bool" where
  "statIsDirectory fs p =
     (case map_of fs p of None \<Rightarrow> Inl (stat_error fs [] p p) | Some n \<Rightarrow> Inr (n = Dir))"

text \<open>\<^verbatim>\<open>fs.readdir\<close>: the names of the entries directly under a directory.\<close>

definition readdir :: "fs \<Rightarrow> path \<Rightarrow> error + string list" where
  "readdir fs p =
     (case map_of fs p of
        None \<Rightarrow> Inl (stat_error fs [] p p)
      | Some (File c) \<Rightarrow> Inl (ENOTDIR p)
      | Some Dir \<Rightarrow> Inr (remdups (map (\<lambda>e. last (fst e))
                         (filter (\<lambda>e. fst e \<noteq> [] \<and> butlast (fst e) = p) fs))))"

text \<open>\<^verbatim>\<open>fs.remove\<close>: deletes a file or a whole directory tree; a missing path is no error.\<close>

definition remove :: "fs \<Rightarrow> path \<Rightarrow> fs" where
  "remove fs p = filter (\<lambda>e. \<not> prefix p (fst e)) fs"

text \<open>
  \<^verbatim>\<open>Walker.loadPackageJSON\<close>: \<^verbatim>\<open>null\<close> when there is no \<^verbatim>\<open>package.json\<close>, and
  \<^verbatim>\<open>readJson\<close> throws when the entry is there but is no parsable file.
\<close>

definition loadPackageJSON :: "fs \<Rightarrow> path \<Rightarrow> error + PackageJSON option" where
  "loadPackageJSON fs modulePath =
     (let pJPath = modulePath @ [''package.json''] in
      if pathExists fs pJPath then
        (case map_of fs pJPath of
           Some (File (Json pJ)) \<Rightarrow> Inr (Some pJ)
         | _ \<Rightarrow> Inl (ReadJsonError pJPath))
      else Inr None)"

section \<open>The module resolver\<close>

text \<open>
  The loop of \<^verbatim>\<open>loadProductionDependenciesForModuleInModule\<close> over its three variables
  \<^verbatim>\<open>testPath\<close>, \<^verbatim>\<open>discoveredPath\<close> and \<^verbatim>\<open>lastRelative\<close>.
\<close>

type_synonym search = "path \<times> path option \<times> path option"

definition testPath :: "search \<Rightarrow> path" where
  "testPath s = fst s"

definition discoveredPath :: "search \<Rightarrow> path option" where
  "discoveredPath s = fst (snd s)"

definition lastRelative :: "search \<Rightarrow> path option" where
  "lastRelative s = snd (snd s)"

text \<open>The two assignments to \<^verbatim>\<open>testPath\<close> of the \<^verbatim>\<open>else\<close> branch (lines 41 to 44).\<close>

definition ascend :: "path \<Rightarrow> path" where
  "ascend t =
     (let t1 = (if basename (dirname t) \<noteq> ''node_modules'' then dirname t else t)
      in dirname (dirname t1))"

definition search_cond :: "string \<Rightarrow> search \<Rightarrow> bool" where
  "search_cond moduleName s =
     (discoveredPath s = None \<and> Some (relativeModule (testPath s) moduleName) \<noteq> lastRelative s)"

definition search_body :: "fs \<Rightarrow> string \<Rightarrow> search \<Rightarrow> search" where
  "search_body fs moduleName s =
     (let l = relativeModule (testPath s) moduleName in
      if pathExists fs l then (testPath s, Some l, Some l)
      else (ascend (testPath s), discoveredPath s, Some l))"

function search_loop :: "fs \<Rightarrow> string \<Rightarrow> search \<Rightarrow> search" where
  "search_loop fs moduleName s =
     (if search_cond moduleName s then search_loop fs moduleName (search_body fs moduleName s)
      else s)"
  by pat_completeness auto

lemma length_ascend: "t \<noteq> [] \<Longrightarrow> length (ascend t) < length t"
  by (simp add: ascend_def dirname_def Let_def)

lemma ascend_Nil: "ascend [] = []"
  by (simp add: ascend_def dirname_def basename_def)

termination search_loop
proof (relation "measure (\<lambda>(fs, m, s).
          if search_cond m s then 2 * length (testPath s) + 1 else 0)")
  show "wf (measure (\<lambda>(fs, m, s).
          if search_cond m s then 2 * length (testPath s) + 1 else 0))"
    by simp
next
  fix fs :: fs and moduleName :: string and s :: search
  assume c: "search_cond moduleName s"
  show "((fs, moduleName, search_body fs moduleName s), (fs, moduleName, s))
        \<in> measure (\<lambda>(fs, m, s). if search_cond m s then 2 * length (testPath s) + 1 else 0)"
  proof (cases "testPath s = []")
    case True
    then have "\<not> search_cond moduleName (search_body fs moduleName s)"
      by (simp add: search_cond_def search_body_def Let_def testPath_def discoveredPath_def
          lastRelative_def ascend_Nil)
    with c show ?thesis by simp
  next
    case False
    then have "pathExists fs (relativeModule (testPath s) moduleName) \<or>
        length (testPath (search_body fs moduleName s)) < length (testPath s)"
      using length_ascend [of "testPath s"]
      by (simp add: search_body_def Let_def testPath_def)
    moreover have "pathExists fs (relativeModule (testPath s) moduleName) \<Longrightarrow>
        \<not> search_cond moduleName (search_body fs moduleName s)"
      by (simp add: search_cond_def search_body_def Let_def discoveredPath_def)
    ultimately show ?thesis using c by auto
  qed
qed

declare search_loop.simps [simp del]

text \<open>The states the loop passes through, from its initial state.\<close>

inductive search_reach :: "fs \<Rightarrow> string \<Rightarrow> path \<Rightarrow> search \<Rightarrow> bool"
  for fs :: fs and moduleName :: string and modulePath :: path where
  init: "search_reach fs moduleName modulePath (modulePath, None, None)"
| step: "search_reach fs moduleName modulePath s \<Longrightarrow> search_cond moduleName s \<Longrightarrow>
         search_reach fs moduleName modulePath (search_body fs moduleName s)"

definition resolve :: "fs \<Rightarrow> string \<Rightarrow> path \<Rightarrow> path option" where
  "resolve fs moduleName modulePath =
     discoveredPath (search_loop fs moduleName (modulePath, None, None))"

section \<open>The production graph builder\<close>

text \<open>
  The walker's state: \<open>prodPaths\<close> is the JavaScript \<^verbatim>\<open>Set\<close>, kept in insertion order;
  \<open>loaded\<close> records, in order, the module paths whose descriptor \<^verbatim>\<open>loadPackageJSON\<close>
  was called on, that is, the modules whose edges were expanded.
\<close>

record walker =
  prodPaths :: "path list"
  loaded :: "path list"

definition set_add :: "'a \<Rightarrow> 'a list \<Rightarrow> 'a list" where
  "set_add x xs = (if x \<in> set xs then xs else xs @ [x])"

text \<open>
  The recursion of \<^verbatim>\<open>loadProductionDependenciesForModule\<close> with its two loops and
  \<^verbatim>\<open>loadProductionDependenciesForModuleInModule\<close>. The first argument bounds the depth
  of the recursion: \<open>None\<close> means the bound was reached.
\<close>

function loadProductionDependenciesForModule ::
    "nat \<Rightarrow> fs \<Rightarrow> path \<Rightarrow> bool \<Rightarrow> walker \<Rightarrow> (error + walker) option"
  and forEachModuleName ::
    "nat \<Rightarrow> fs \<Rightarrow> string list \<Rightarrow> path \<Rightarrow> bool \<Rightarrow> walker \<Rightarrow> (error + walker) option"
  and loadProductionDependenciesForModuleInModule ::
    "nat \<Rightarrow> fs \<Rightarrow> string \<Rightarrow> path \<Rightarrow> bool \<Rightarrow> walker \<Rightarrow> (error + walker) option"
  where
  "loadProductionDependenciesForModule 0 fs modulePath allowMissing w = None"
| "loadProductionDependenciesForModule (Suc n) fs modulePath allowMissing w =
     (if modulePath \<in> set (prodPaths w) then Some (Inr w)
      else
        let w1 = w\<lparr>prodPaths := set_add modulePath (prodPaths w),
                   loaded := loaded w @ [modulePath]\<rparr> in
        case loadPackageJSON fs modulePath of
          Inl e \<Rightarrow> Some (Inl e)
        | Inr None \<Rightarrow> Some (Inr w1)
        | Inr (Some pJ) \<Rightarrow>
            (case forEachModuleName n fs (dependencies pJ) modulePath allowMissing w1 of
               None \<Rightarrow> None
             | Some (Inl e) \<Rightarrow> Some (Inl e)
             | Some (Inr w2) \<Rightarrow>
                 forEachModuleName n fs (optionalDependencies pJ) modulePath True w2))"
| "forEachModuleName n fs [] modulePath allowMissing w = Some (Inr w)"
| "forEachModuleName n fs (moduleName # rest) modulePath allowMissing w =
     (case loadProductionDependenciesForModuleInModule n fs moduleName modulePath allowMissing w of
        None \<Rightarrow> None
      | Some (Inl e) \<Rightarrow> Some (Inl e)
      | Some (Inr w') \<Rightarrow> forEachModuleName n fs rest modulePath allowMissing w')"
| "loadProductionDependenciesForModuleInModule n fs moduleName modulePath allowMissing w =
     (let found = resolve fs moduleName modulePath in
      if found = None \<and> \<not> allowMissing then Some (Inl (ResolutionError moduleName modulePath))
      else
        (case found of
           Some d \<Rightarrow> loadProductionDependenciesForModule n fs d allowMissing w
         | None \<Rightarrow> Some (Inr w)))"
  by pat_completeness auto

termination
  by (relation "(\<lambda>x. case x of Inl (n, r) \<Rightarrow> 3 * n
                    | Inr (Inl (n, r)) \<Rightarrow> 3 * n + 2
                    | Inr (Inr (n, r)) \<Rightarrow> 3 * n + 1)
        <*mlex*> measure (\<lambda>x. case x of Inl (n, r) \<Rightarrow> 0
                    | Inr (Inl (n, fs, names, r)) \<Rightarrow> length names
                    | Inr (Inr (n, r)) \<Rightarrow> 0)")
     (auto simp: mlex_prod_def)

text \<open>
  \<^verbatim>\<open>loadProductionDependencies\<close>. Every module added to the set beyond the root exists
  on disk, so the recursion is never deeper than the number of entries of the table plus one.
\<close>

definition loadProductionDependencies :: "fs \<Rightarrow> path \<Rightarrow> (error + walker) option" where
  "loadProductionDependencies fs rootModule =
     loadProductionDependenciesForModule (length fs + 2) fs rootModule False
       \<lparr>prodPaths = [], loaded = []\<rparr>"

section \<open>The pruner\<close>

text \<open>
  \<^verbatim>\<open>Walker.pruneModule\<close> with its two loops, over the filesystem as explicit state: the
  outer loop over the entries of \<^verbatim>\<open>node_modules\<close>, the inner loop over the entries of a
  scope directory. \<^verbatim>\<open>readdir\<close> is called once before each loop; the filesystem changes
  while the loop runs. The first argument bounds the depth of the recursion.
\<close>

function pruneModule :: "nat \<Rightarrow> walker \<Rightarrow> fs \<Rightarrow> path \<Rightarrow> (error + fs) option"
  and pruneSubModules :: "nat \<Rightarrow> walker \<Rightarrow> path \<Rightarrow> string list \<Rightarrow> fs \<Rightarrow> (error + fs) option"
  and pruneSubScopedModules ::
    "nat \<Rightarrow> walker \<Rightarrow> path \<Rightarrow> string list \<Rightarrow> fs \<Rightarrow> (error + fs) option"
  where
  "pruneModule 0 w fs modulePath = None"
| "pruneModule (Suc n) w fs modulePath =
     (if modulePath \<in> set (prodPaths w) then
        let nodeModulesPath = modulePath @ [''node_modules''] in
        if \<not> pathExists fs nodeModulesPath then Some (Inr fs)
        else
          (case readdir fs nodeModulesPath of
             Inl e \<Rightarrow> Some (Inl e)
           | Inr names \<Rightarrow> pruneSubModules n w nodeModulesPath names fs)
      else Some (Inr (remove fs modulePath)))"
| "pruneSubModules n w nodeModulesPath [] fs = Some (Inr fs)"
| "pruneSubModules n w nodeModulesPath (subModuleName # rest) fs =
     (case
        (if prefix ''@'' subModuleName then
           (case readdir fs (nodeModulesPath @ [subModuleName]) of
              Inl e \<Rightarrow> Some (Inl e)
            | Inr subs \<Rightarrow>
                pruneSubScopedModules n w (nodeModulesPath @ [subModuleName]) subs fs)
         else pruneModule n w fs (nodeModulesPath @ [subModuleName]))
      of
        None \<Rightarrow> None
      | Some (Inl e) \<Rightarrow> Some (Inl e)
      | Some (Inr fs') \<Rightarrow> pruneSubModules n w nodeModulesPath rest fs')"
| "pruneSubScopedModules n w scopePath [] fs = Some (Inr fs)"
| "pruneSubScopedModules n w scopePath (subScopedModuleName # rest) fs =
     (case pruneModule n w fs (scopePath @ [subScopedModuleName]) of
        None \<Rightarrow> None
      | Some (Inl e) \<Rightarrow> Some (Inl e)
      | Some (Inr fs') \<Rightarrow> pruneSubScopedModules n w scopePath rest fs')"
  by pat_completeness auto

termination
  by (relation "(\<lambda>x. case x of Inl (n, r) \<Rightarrow> 3 * n
                    | Inr (Inl (n, r)) \<Rightarrow> 3 * n + 2
                    | Inr (Inr (n, r)) \<Rightarrow> 3 * n + 1)
        <*mlex*> measure (\<lambda>x. case x of Inl (n, r) \<Rightarrow> 0
                    | Inr (Inl (n, w, p, names, r)) \<Rightarrow> length names
                    | Inr (Inr (n, w, p, names, r)) \<Rightarrow> length names)")
     (auto simp: mlex_prod_def)

text \<open>The length of the longest path of the table: no module directory lies deeper.\<close>

definition max_depth :: "fs \<Rightarrow> nat" where
  "max_depth fs = foldr (\<lambda>e m. max (length (fst e)) m) fs 0"

text \<open>\<^verbatim>\<open>Walker.prune\<close>.\<close>

definition prune :: "fs \<Rightarrow> path \<Rightarrow> (error + fs) option" where
  "prune fs rootModule =
     (case loadProductionDependencies fs rootModule of
        None \<Rightarrow> None
      | Some (Inl e) \<Rightarrow> Some (Inl e)
      | Some (Inr w) \<Rightarrow> pruneModule (Suc (max_depth fs)) w fs rootModule)"

section \<open>The ignore predicate\<close>

text \<open>
  \<^verbatim>\<open>Walker.getNearestModuleDirectory\<close>: a loop with no bound, so a run that does not
  return is the value \<open>None\<close>.
\<close>

partial_function (option) getNearestModuleDirectory :: "fs \<Rightarrow> path \<Rightarrow> (error + path) option"
  where
  "getNearestModuleDirectory fs tPath =
     (case statIsDirectory fs tPath of
        Inl e \<Rightarrow> Some (Inl e)
      | Inr isDirectory \<Rightarrow>
          if \<not> isDirectory \<or> \<not> pathExists fs (tPath @ [''package.json''])
          then getNearestModuleDirectory fs (dirname tPath)
          else Some (Inr tPath))"

text \<open>
  The closure \<^verbatim>\<open>getFsCopyIgnoreFunction\<close> returns. It captures \<open>prodPaths\<close> and
  \<open>nmPath\<close>; the filesystem is the one at the time of the call. The test
  \<^verbatim>\<open>tPath.indexOf(nmPath) === 0\<close> compares the texts of the two paths.
\<close>

definition ignoreFunction :: "path list \<Rightarrow> path \<Rightarrow> fs \<Rightarrow> path \<Rightarrow> (error + bool) option" where
  "ignoreFunction prodPaths' nmPath fs tPath =
     (case getNearestModuleDirectory fs tPath of
        None \<Rightarrow> None
      | Some (Inl e) \<Rightarrow> Some (Inl e)
      | Some (Inr dirPath) \<Rightarrow>
          Some (Inr (if prefix (path_string nmPath) (path_string tPath)
                     then dirPath \<notin> set prodPaths' else False)))"

definition getFsCopyIgnoreFunction ::
    "fs \<Rightarrow> path \<Rightarrow> (error + (fs \<Rightarrow> path \<Rightarrow> (error + bool) option)) option" where
  "getFsCopyIgnoreFunction fs rootModule =
     (case loadProductionDependencies fs rootModule of
        None \<Rightarrow> None
      | Some (Inl e) \<Rightarrow> Some (Inl e)
      | Some (Inr w) \<Rightarrow>
          Some (Inr (ignoreFunction (prodPaths w) (rootModule @ [''node_modules'']))))"

section \<open>Predicates of the properties\<close>

text \<open>
  The descriptor of every member was loaded exactly once, in the order the members were
  added, and no member was added twice.
\<close>

definition trace_ok :: "walker \<Rightarrow> bool" where
  "trace_ok w = (loaded w = prodPaths w \<and> distinct (prodPaths w))"

text \<open>
  The edges of the production graph: from a module to what the names of its
  \<open>dependencies\<close> and \<open>optionalDependencies\<close> resolve to.
\<close>

definition production_edges :: "fs \<Rightarrow> path \<Rightarrow> path list" where
  "production_edges fs p =
     (case loadPackageJSON fs p of
        Inr (Some pJ) \<Rightarrow>
          List.map_filter (\<lambda>name. resolve fs name p) (dependencies pJ @ optionalDependencies pJ)
      | _ \<Rightarrow> [])"

definition production_edge :: "fs \<Rightarrow> path \<Rightarrow> path \<Rightarrow> bool" where
  "production_edge fs p q = (q \<in> set (production_edges fs p))"

text \<open>The same filesystem with every \<open>devDependencies\<close> map emptied.\<close>

definition erase_dev_node :: "node \<Rightarrow> node" where
  "erase_dev_node nd =
     (case nd of File (Json pJ) \<Rightarrow> File (Json (pJ\<lparr>devDependencies := []\<rparr>)) | _ \<Rightarrow> nd)"

definition erase_dev :: "fs \<Rightarrow> fs" where
  "erase_dev fs = map (\<lambda>e. (fst e, erase_dev_node (snd e))) fs"

text \<open>
  The calls of the traversal and the calls each of them makes: a call of
  \<^verbatim>\<open>loadProductionDependenciesForModule\<close> runs the two loops, the second one if the
  first returned; a loop calls \<^verbatim>\<open>loadProductionDependenciesForModuleInModule\<close> on its
  first name and, if that returned, goes on with the rest; that call visits the module it
  found.
\<close>

datatype call =
    CallForModule nat path bool walker
  | CallForEach nat "string list" path bool walker
  | CallInModule nat string path bool walker

fun run_call :: "fs \<Rightarrow> call \<Rightarrow> (error + walker) option" where
  "run_call fs (CallForModule n p am w) = loadProductionDependenciesForModule n fs p am w"
| "run_call fs (CallForEach n names p am w) = forEachModuleName n fs names p am w"
| "run_call fs (CallInModule n name p am w) =
     loadProductionDependenciesForModuleInModule n fs name p am w"

inductive subcall :: "fs \<Rightarrow> call \<Rightarrow> call \<Rightarrow> bool" for fs :: fs where
  dependencies_loop:
    "p \<notin> set (prodPaths w) \<Longrightarrow> loadPackageJSON fs p = Inr (Some pJ) \<Longrightarrow>
     subcall fs (CallForModule (Suc n) p am w)
       (CallForEach n (dependencies pJ) p am
          (w\<lparr>prodPaths := set_add p (prodPaths w), loaded := loaded w @ [p]\<rparr>))"
| optional_loop:
    "p \<notin> set (prodPaths w) \<Longrightarrow> loadPackageJSON fs p = Inr (Some pJ) \<Longrightarrow>
     forEachModuleName n fs (dependencies pJ) p am
       (w\<lparr>prodPaths := set_add p (prodPaths w), loaded := loaded w @ [p]\<rparr>) = Some (Inr w2) \<Longrightarrow>
     subcall fs (CallForModule (Suc n) p am w) (CallForEach n (optionalDependencies pJ) p True w2)"
| loop_head:
    "subcall fs (CallForEach n (name # rest) p am w) (CallInModule n name p am w)"
| loop_tail:
    "loadProductionDependenciesForModuleInModule n fs name p am w = Some (Inr w') \<Longrightarrow>
     subcall fs (CallForEach n (name # rest) p am w) (CallForEach n rest p am w')"
| found:
    "resolve fs name p = Some d \<Longrightarrow>
     subcall fs (CallInModule n name p am w) (CallForModule n d am w)"

text \<open>Once a module is found, \<^verbatim>\<open>lastRelative\<close> is the candidate of \<^verbatim>\<open>testPath\<close>.\<close>

definition search_inv :: "string \<Rightarrow> search \<Rightarrow> bool" where
  "search_inv moduleName s =
     (discoveredPath s \<noteq> None \<longrightarrow>
        lastRelative s = Some (relativeModule (testPath s) moduleName))"

text \<open>A directory that holds a descriptor file.\<close>

definition module_dir :: "fs \<Rightarrow> path \<Rightarrow> bool" where
  "module_dir fs q = (map_of fs q = Some Dir \<and> pathExists fs (q @ [''package.json'']))"

text \<open>
  Two filesystems in which the same ancestors of a path (the path included) exist, the
  same ones are directories and the same ones hold a descriptor file.
\<close>

definition same_ancestors :: "fs \<Rightarrow> fs \<Rightarrow> path \<Rightarrow> bool" where
  "same_ancestors fs fs' t =
     (\<forall>q. prefix q t \<longrightarrow>
        pathExists fs q = pathExists fs' q
        \<and> (map_of fs q = Some Dir) = (map_of fs' q = Some Dir)
        \<and> pathExists fs (q @ [''package.json'']) = pathExists fs' (q @ [''package.json'']))"

text \<open>The table is a tree: what holds an entry is a directory of the table.\<close>

definition wf_fs :: "fs \<Rightarrow> bool" where
  "wf_fs fs = (\<forall>e \<in> set fs. fst e \<noteq> [] \<longrightarrow> map_of fs (butlast (fst e)) = Some Dir)"

text \<open>
  The step from a module directory to a module installed directly under it, as the pruner
  walks: \<^verbatim>\<open>node_modules/x\<close>, or \<^verbatim>\<open>node_modules/@s/x\<close> under a scope directory.
\<close>

definition is_chunk :: "path \<Rightarrow> bool" where
  "is_chunk c =
     (case c of
        [d, x] \<Rightarrow> d = ''node_modules'' \<and> \<not> prefix ''@'' x
      | [d, s, x] \<Rightarrow> d = ''node_modules'' \<and> prefix ''@'' s
      | _ \<Rightarrow> False)"

text \<open>
  \<open>visited S a t\<close>: the directory \<open>t\<close> is a candidate of the walk that starts at
  \<open>a\<close>, every directory on the way from \<open>a\<close> to \<open>t\<close>, \<open>t\<close> excluded, being a
  member of \<open>S\<close>. \<open>doomed S a q\<close>: the path \<open>q\<close> lies in a candidate of that walk
  that is no member.
\<close>

inductive visited :: "path set \<Rightarrow> path \<Rightarrow> path \<Rightarrow> bool" for S :: "path set" where
  here: "visited S a a"
| down: "a \<in> S \<Longrightarrow> is_chunk c \<Longrightarrow> visited S (a @ c) t \<Longrightarrow> visited S a t"

definition doomed :: "path set \<Rightarrow> path \<Rightarrow> path \<Rightarrow> bool" where
  "doomed S a q = (\<exists>t. visited S a t \<and> t \<notin> S \<and> prefix t q)"

text \<open>\<open>below a p\<close>: \<open>p\<close> is a module directory installed somewhere under \<open>a\<close>.\<close>

inductive below :: "path \<Rightarrow> path \<Rightarrow> bool" where
  child: "is_chunk c \<Longrightarrow> below a (a @ c)"
| deeper: "is_chunk c \<Longrightarrow> below (a @ c) p \<Longrightarrow> below a p"

text \<open>The table without the paths of a set.\<close>

definition without :: "(path \<Rightarrow> bool) \<Rightarrow> fs \<Rightarrow> fs" where
  "without U fs = filter (\<lambda>e. \<not> U (fst e)) fs"

text \<open>What the walk removes under one entry of a \<^verbatim>\<open>node_modules\<close> directory.\<close>

definition doomed_entry :: "path set \<Rightarrow> path \<Rightarrow> string \<Rightarrow> path \<Rightarrow> bool" where
  "doomed_entry S nmp x q =
     (if prefix ''@'' x then \<exists>y. doomed S (nmp @ [x, y]) q else doomed S (nmp @ [x]) q)"

text \<open>
  A package name: one segment that does not start with \<^verbatim>\<open>@\<close>, or a scope segment
  that does and a second segment; no segment is empty, \<^verbatim>\<open>.\<close> or \<^verbatim>\<open>..\<close>.
\<close>

definition valid_name :: "string \<Rightarrow> bool" where
  "valid_name name =
     (case split_slash name of
        [x] \<Rightarrow> x \<noteq> [] \<and> x \<noteq> ''.'' \<and> x \<noteq> ''..'' \<and> \<not> prefix ''@'' x
      | [s, x] \<Rightarrow> prefix ''@'' s \<and> x \<noteq> [] \<and> x \<noteq> ''.'' \<and> x \<noteq> ''..''
      | _ \<Rightarrow> False)"

text \<open>Every descriptor of the table lists package names only.\<close>

definition valid_names :: "fs \<Rightarrow> bool" where
  "valid_names fs =
     (\<forall>e \<in> set fs.
        case snd e of
          File (Json pJ) \<Rightarrow>
            (\<forall>name \<in> set (dependencies pJ) \<union> set (optionalDependencies pJ). valid_name name)
        | _ \<Rightarrow> True)"

text \<open>The root is itself neither a \<^verbatim>\<open>node_modules\<close> directory nor a scope directory.\<close>

definition root_ok :: "path \<Rightarrow> bool" where
  "root_ok rootModule =
     (basename rootModule \<noteq> ''node_modules'' \<and> \<not> prefix ''@'' (basename rootModule))"

text \<open>
  Every member under the root is a candidate of the walk from the root: the module
  directories that enclose it are members too.
\<close>

definition members_placed :: "path \<Rightarrow> path set \<Rightarrow> bool" where
  "members_placed rootModule S = (\<forall>p \<in> S. prefix rootModule p \<longrightarrow> visited S rootModule p)"

section \<open>Example installations\<close>

text \<open>
  A root that depends on \<open>a\<close> and \<open>b\<close>, which depend on each other; all three are
  installed flat under the root.
\<close>

definition cyclic_install :: fs where
  "cyclic_install =
    [([], Dir), ([''proj''], Dir),
     ([''proj'', ''package.json''],
        File (Json \<lparr>dependencies = [''a'', ''b''], devDependencies = [],
                     optionalDependencies = []\<rparr>)),
     ([''proj'', ''node_modules''], Dir),
     ([''proj'', ''node_modules'', ''a''], Dir),
     ([''proj'', ''node_modules'', ''a'', ''package.json''],
        File (Json \<lparr>dependencies = [''b''], devDependencies = [],
                     optionalDependencies = []\<rparr>)),
     ([''proj'', ''node_modules'', ''b''], Dir),
     ([''proj'', ''node_modules'', ''b'', ''package.json''],
        File (Json \<lparr>dependencies = [''a''], devDependencies = [],
                     optionalDependencies = []\<rparr>))]"

text \<open>
  A root with the optional dependency \<open>c\<close>; \<open>c\<close> requires \<open>d\<close>, which requires \<open>e\<close>;
  \<open>e\<close> is not installed anywhere.
\<close>

definition optional_install :: fs where
  "optional_install =
    [([], Dir), ([''proj''], Dir),
     ([''proj'', ''package.json''],
        File (Json \<lparr>dependencies = [], devDependencies = [],
                     optionalDependencies = [''c'']\<rparr>)),
     ([''proj'', ''node_modules''], Dir),
     ([''proj'', ''node_modules'', ''c''], Dir),
     ([''proj'', ''node_modules'', ''c'', ''package.json''],
        File (Json \<lparr>dependencies = [''d''], devDependencies = [],
                     optionalDependencies = []\<rparr>)),
     ([''proj'', ''node_modules'', ''d''], Dir),
     ([''proj'', ''node_modules'', ''d'', ''package.json''],
        File (Json \<lparr>dependencies = [''e''], devDependencies = [],
                     optionalDependencies = []\<rparr>))]"

text \<open>
  The scenario of the specification: the root depends on \<open>a\<close>; \<open>a\<close> and \<open>b\<close> are
  installed; the argument is the root's \<open>devDependencies\<close>.
\<close>

definition scenario_install :: "string list \<Rightarrow> fs" where
  "scenario_install devs =
    [([], Dir), ([''proj''], Dir),
     ([''proj'', ''package.json''],
        File (Json \<lparr>dependencies = [''a''], devDependencies = devs,
                     optionalDependencies = []\<rparr>)),
     ([''proj'', ''node_modules''], Dir),
     ([''proj'', ''node_modules'', ''a''], Dir),
     ([''proj'', ''node_modules'', ''a'', ''package.json''],
        File (Json \<lparr>dependencies = [], devDependencies = [],
                     optionalDependencies = []\<rparr>)),
     ([''proj'', ''node_modules'', ''b''], Dir),
     ([''proj'', ''node_modules'', ''b'', ''package.json''],
        File (Json \<lparr>dependencies = [], devDependencies = [],
                     optionalDependencies = []\<rparr>))]"

text \<open>
  A root with no dependency, and next to its \<^verbatim>\<open>node_modules\<close> a directory
  \<^verbatim>\<open>node_modules_old\<close> that holds a package.
\<close>

definition shadow_install :: fs where
  "shadow_install =
    [([], Dir), ([''proj''], Dir),
     ([''proj'', ''package.json''],
        File (Json \<lparr>dependencies = [], devDependencies = [], optionalDependencies = []\<rparr>)),
     ([''proj'', ''node_modules''], Dir),
     ([''proj'', ''node_modules_old''], Dir),
     ([''proj'', ''node_modules_old'', ''dep''], Dir),
     ([''proj'', ''node_modules_old'', ''dep'', ''package.json''],
        File (Json \<lparr>dependencies = [], devDependencies = [], optionalDependencies = []\<rparr>))]"

text \<open>The scenario with the root's \<open>devDependencies\<close> \<open>b\<close>, after pruning.\<close>

definition scenario_pruned :: fs where
  "scenario_pruned =
    [([], Dir), ([''proj''], Dir),
     ([''proj'', ''package.json''],
        File (Json \<lparr>dependencies = [''a''], devDependencies = [''b''],
                     optionalDependencies = []\<rparr>)),
     ([''proj'', ''node_modules''], Dir),
     ([''proj'', ''node_modules'', ''a''], Dir),
     ([''proj'', ''node_modules'', ''a'', ''package.json''],
        File (Json \<lparr>dependencies = [], devDependencies = [],
                     optionalDependencies = []\<rparr>))]"

text \<open>
  A root whose one dependency key is \<^verbatim>\<open>b/node_modules/c\<close>, which is no package name:
  the key resolves to the directory \<open>c\<close> inside the installed \<open>b\<close>.
\<close>

definition nested_key_install :: fs where
  "nested_key_install =
    [([], Dir), ([''proj''], Dir),
     ([''proj'', ''package.json''],
        File (Json \<lparr>dependencies = [''b/node_modules/c''], devDependencies = [],
                     optionalDependencies = []\<rparr>)),
     ([''proj'', ''node_modules''], Dir),
     ([''proj'', ''node_modules'', ''b''], Dir),
     ([''proj'', ''node_modules'', ''b'', ''node_modules''], Dir),
     ([''proj'', ''node_modules'', ''b'', ''node_modules'', ''c''], Dir)]"

definition nested_key_pruned :: fs where
  "nested_key_pruned =
    [([], Dir), ([''proj''], Dir),
     ([''proj'', ''package.json''],
        File (Json \<lparr>dependencies = [''b/node_modules/c''], devDependencies = [],
                     optionalDependencies = []\<rparr>)),
     ([''proj'', ''node_modules''], Dir)]"

text \<open>
  A root that is itself the directory \<^verbatim>\<open>/node_modules\<close>. It depends on \<open>q\<close>, found
  beside it under the filesystem root's \<^verbatim>\<open>node_modules\<close>; \<open>q\<close> depends on a package
  named \<^verbatim>\<open>node_modules\<close>, found there too, which depends on \<open>y\<close>, installed under it.
\<close>

definition node_modules_root_install :: fs where
  "node_modules_root_install =
    [([], Dir), ([''node_modules''], Dir),
     ([''node_modules'', ''package.json''],
        File (Json \<lparr>dependencies = [''q''], devDependencies = [],
                     optionalDependencies = []\<rparr>)),
     ([''node_modules'', ''q''], Dir),
     ([''node_modules'', ''q'', ''package.json''],
        File (Json \<lparr>dependencies = [''node_modules''], devDependencies = [],
                     optionalDependencies = []\<rparr>)),
     ([''node_modules'', ''node_modules''], Dir),
     ([''node_modules'', ''node_modules'', ''package.json''],
        File (Json \<lparr>dependencies = [''y''], devDependencies = [],
                     optionalDependencies = []\<rparr>)),
     ([''node_modules'', ''node_modules'', ''node_modules''], Dir),
     ([''node_modules'', ''node_modules'', ''node_modules'', ''y''], Dir)]"

section \<open>The ascent as the specification words it\<close>

text \<open>
  The step of section 4.2 of the specification, read literally: move to the parent; unless
  the parent's parent is an installed-packages directory, move up one further level; then
  move up one more level.
\<close>

definition ascend_spec :: "path \<Rightarrow> path" where
  "ascend_spec D =
     (let D1 = dirname D;
          D2 = (if basename (dirname D1) = ''node_modules'' then D1 else dirname D1)
      in dirname D2)"

section \<open>The resolver's ascent\<close>

lemma ascend_unscoped: "ascend (X @ [''node_modules'', p]) = X"
  by (simp add: ascend_def dirname_def basename_def butlast_append)

lemma ascend_scoped: "s \<noteq> ''node_modules'' \<Longrightarrow> ascend (X @ [''node_modules'', s, p]) = X"
  by (simp add: ascend_def dirname_def basename_def butlast_append)

text \<open>
  Claim C7, as amended. When the candidate of \<open>D\<close> does not exist, the next probe directory
  is two levels above \<open>D\<close> if the parent of \<open>D\<close> is named \<^verbatim>\<open>node_modules\<close> (an unscoped
  package), and three levels above \<open>D\<close> otherwise (a scoped package, which sits one level
  deeper). Both for \<open>X/node_modules/p\<close> and for \<open>X/node_modules/s/p\<close> the next probe
  directory is \<open>X\<close>, the directory that holds the enclosing \<^verbatim>\<open>node_modules\<close>.
\<close>

theorem ascent_step:
  assumes "\<not> pathExists fs (relativeModule D moduleName)"
  shows "testPath (search_body fs moduleName (D, disc, lst)) =
           (if basename (dirname D) = ''node_modules'' then dirname (dirname D)
            else dirname (dirname (dirname D)))
         \<and> (\<forall>X p. D = X @ [''node_modules'', p] \<longrightarrow>
               testPath (search_body fs moduleName (D, disc, lst)) = X)
         \<and> (\<forall>X s p. s \<noteq> ''node_modules'' \<longrightarrow> D = X @ [''node_modules'', s, p] \<longrightarrow>
               testPath (search_body fs moduleName (D, disc, lst)) = X)"
  using assms ascend_unscoped ascend_scoped
  by (auto simp: search_body_def testPath_def Let_def ascend_def)

theorem ascent_step_witness:
  "\<not> pathExists [([], Dir)] (relativeModule [''proj'', ''node_modules'', ''@s'', ''p''] ''dep'')
   \<and> testPath (search_body [([], Dir)] ''dep''
        ([''proj'', ''node_modules'', ''@s'', ''p''], None, None)) = [''proj'']"
  using ascent_step [of "[([], Dir)]" "[''proj'', ''node_modules'', ''@s'', ''p'']" "''dep''"
      None None]
  by (simp add: pathExists_def relativeModule_def resolve_arg_def seg_step_def dirname_def
      basename_def)

text \<open>
  The step as the specification words it differs from the code: from
  \<^verbatim>\<open>/proj/node_modules/a/node_modules/b\<close> the code goes to \<^verbatim>\<open>/proj/node_modules/a\<close>, the
  specification's wording to \<^verbatim>\<open>/proj/node_modules\<close>.
\<close>

theorem ascent_spec_counterexample:
  "\<not> pathExists [([], Dir)]
       (relativeModule [''proj'', ''node_modules'', ''a'', ''node_modules'', ''b''] ''dep'')
   \<and> testPath (search_body [([], Dir)] ''dep''
        ([''proj'', ''node_modules'', ''a'', ''node_modules'', ''b''], None, None))
      = [''proj'', ''node_modules'', ''a'']
   \<and> ascend_spec [''proj'', ''node_modules'', ''a'', ''node_modules'', ''b'']
      = [''proj'', ''node_modules'']"
  by (simp add: pathExists_def relativeModule_def resolve_arg_def seg_step_def dirname_def
      basename_def search_body_def testPath_def ascend_def ascend_spec_def)

section \<open>The production graph builder: basic facts\<close>

lemma set_set_add [simp]: "set (set_add x xs) = insert x (set xs)"
  by (auto simp: set_add_def)

lemma visit_induct [case_names Zero Visit Nil Cons InModule]:
  fixes P :: "nat \<Rightarrow> fs \<Rightarrow> path \<Rightarrow> bool \<Rightarrow> walker \<Rightarrow> bool"
    and Q :: "nat \<Rightarrow> fs \<Rightarrow> string list \<Rightarrow> path \<Rightarrow> bool \<Rightarrow> walker \<Rightarrow> bool"
    and R :: "nat \<Rightarrow> fs \<Rightarrow> string \<Rightarrow> path \<Rightarrow> bool \<Rightarrow> walker \<Rightarrow> bool"
  assumes "\<And>fs p am w. P 0 fs p am w"
    and "\<And>n fs p am w.
          (\<And>pJ. p \<notin> set (prodPaths w) \<Longrightarrow> loadPackageJSON fs p = Inr (Some pJ) \<Longrightarrow>
             Q n fs (dependencies pJ) p am
               (w\<lparr>prodPaths := set_add p (prodPaths w), loaded := loaded w @ [p]\<rparr>)) \<Longrightarrow>
          (\<And>pJ w2. p \<notin> set (prodPaths w) \<Longrightarrow> loadPackageJSON fs p = Inr (Some pJ) \<Longrightarrow>
             forEachModuleName n fs (dependencies pJ) p am
               (w\<lparr>prodPaths := set_add p (prodPaths w), loaded := loaded w @ [p]\<rparr>)
               = Some (Inr w2) \<Longrightarrow>
             Q n fs (optionalDependencies pJ) p True w2) \<Longrightarrow>
          P (Suc n) fs p am w"
    and "\<And>n fs p am w. Q n fs [] p am w"
    and "\<And>n fs name rest p am w.
          R n fs name p am w \<Longrightarrow>
          (\<And>w'. loadProductionDependenciesForModuleInModule n fs name p am w = Some (Inr w') \<Longrightarrow>
             Q n fs rest p am w') \<Longrightarrow>
          Q n fs (name # rest) p am w"
    and "\<And>n fs name p am w.
          (\<And>d. resolve fs name p = Some d \<Longrightarrow> P n fs d am w) \<Longrightarrow> R n fs name p am w"
  shows "P n fs p am w" and "Q n fs names p am w" and "R n fs name p am w"
proof (induction n fs p am w and n fs names p am w and n fs name p am w
    rule: loadProductionDependenciesForModule_forEachModuleName_loadProductionDependenciesForModuleInModule.induct)
  case (1 fs modulePath allowMissing w)
  show ?case by (rule assms(1))
next
  case (2 n fs modulePath allowMissing w)
  show ?case
    by (rule assms(2)) (use 2 in auto)
next
  case (3 n fs modulePath allowMissing w)
  show ?case by (rule assms(3))
next
  case (4 n fs moduleName rest modulePath allowMissing w)
  show ?case
    by (rule assms(4)) (use 4 in auto)
next
  case (5 n fs moduleName modulePath allowMissing w)
  show ?case
    by (rule assms(5)) (use 5 in auto)
qed

lemma inModule_None:
  "resolve fs name p = None \<Longrightarrow>
     loadProductionDependenciesForModuleInModule n fs name p am w =
       (if am then Some (Inr w) else Some (Inl (ResolutionError name p)))"
  by simp

lemma inModule_Some:
  "resolve fs name p = Some d \<Longrightarrow>
     loadProductionDependenciesForModuleInModule n fs name p am w =
       loadProductionDependenciesForModule n fs d am w"
  by simp

declare loadProductionDependenciesForModuleInModule.simps [simp del]

lemma visit_mono:
  "loadProductionDependenciesForModule n fs p am w = Some (Inr w') \<longrightarrow>
     set (prodPaths w) \<subseteq> set (prodPaths w') \<and> p \<in> set (prodPaths w')"
  "forEachModuleName n fs names p am w = Some (Inr w') \<longrightarrow>
     set (prodPaths w) \<subseteq> set (prodPaths w')"
  "loadProductionDependenciesForModuleInModule n fs name p am w = Some (Inr w') \<longrightarrow>
     set (prodPaths w) \<subseteq> set (prodPaths w')"
proof (induction n fs p am w and n fs names p am w and n fs name p am w
    arbitrary: w' and w' and w' rule: visit_induct)
  case (Zero fs p am w)
  show ?case by simp
next
  case (Visit n fs p am w)
  show ?case
    using Visit
    by (auto simp: Let_def split: sum.splits option.splits) blast+
next
  case (Nil n fs p am w)
  show ?case by simp
next
  case (Cons n fs name rest p am w)
  show ?case
    using Cons by (auto split: sum.splits option.splits) blast
next
  case (InModule n fs name p am w)
  show ?case
    using InModule
    by (cases "resolve fs name p") (auto simp: inModule_None inModule_Some)
qed

subsection \<open>The search finds only paths that exist\<close>

lemma search_loop_discovered:
  "discoveredPath s = None \<or> (\<exists>d. discoveredPath s = Some d \<and> pathExists fs d) \<Longrightarrow>
   discoveredPath (search_loop fs moduleName s) = Some d \<Longrightarrow> pathExists fs d"
proof (induction fs moduleName s rule: search_loop.induct)
  case (1 fs moduleName s)
  show ?case
  proof (cases "search_cond moduleName s")
    case True
    have "discoveredPath (search_body fs moduleName s) = None \<or>
        (\<exists>d. discoveredPath (search_body fs moduleName s) = Some d \<and> pathExists fs d)"
      using True
      by (auto simp: search_body_def search_cond_def Let_def discoveredPath_def)
    moreover have "discoveredPath (search_loop fs moduleName (search_body fs moduleName s)) = Some d"
      using "1.prems"(2) True by (simp add: search_loop.simps [of fs moduleName s])
    ultimately show ?thesis using "1.IH" [OF True] by blast
  next
    case False
    then show ?thesis using "1.prems" by (auto simp: search_loop.simps [of fs moduleName s])
  qed
qed

lemma resolve_exists: "resolve fs moduleName modulePath = Some d \<Longrightarrow> pathExists fs d"
  unfolding resolve_def
  by (rule search_loop_discovered [of "(modulePath, None, None)"]) (simp_all add: discoveredPath_def)

lemma pathExists_dom: "pathExists fs p \<Longrightarrow> p \<in> fst ` set fs"
  by (auto simp: pathExists_def dest: map_of_SomeD intro: rev_image_eqI)

subsection \<open>The recursion bound is never reached\<close>

lemma card_Diff_mono: "finite E \<Longrightarrow> A \<subseteq> B \<Longrightarrow> card (E - B) \<le> card (E - A)"
  by (rule card_mono) auto

lemma card_unvisited_step:
  assumes "finite E" "p \<notin> A" "card (insert p E - A) < Suc n"
  shows "card (E - insert p A) < n"
proof -
  have "insert p E - A = insert p (E - insert p A)" using assms(2) by auto
  moreover have "p \<notin> E - insert p A" by simp
  moreover have "finite (E - insert p A)" using assms(1) by simp
  ultimately have "card (insert p E - A) = Suc (card (E - insert p A))"
    by (metis card_insert_disjoint)
  with assms(3) show ?thesis by simp
qed

lemma visit_total:
  "card (insert p (fst ` set fs) - set (prodPaths w)) < n \<longrightarrow>
     loadProductionDependenciesForModule n fs p am w \<noteq> None"
  "card (fst ` set fs - set (prodPaths w)) < n \<longrightarrow>
     forEachModuleName n fs names p am w \<noteq> None"
  "card (fst ` set fs - set (prodPaths w)) < n \<longrightarrow>
     loadProductionDependenciesForModuleInModule n fs name p am w \<noteq> None"
proof (induction n fs p am w and n fs names p am w and n fs name p am w rule: visit_induct)
  case (Zero fs p am w)
  show ?case by simp
next
  case (Visit n fs p am w)
  let ?w1 = "w\<lparr>prodPaths := set_add p (prodPaths w), loaded := loaded w @ [p]\<rparr>"
  show ?case
  proof (intro impI)
    assume c: "card (insert p (fst ` set fs) - set (prodPaths w)) < Suc n"
    show "loadProductionDependenciesForModule (Suc n) fs p am w \<noteq> None"
    proof (cases "p \<in> set (prodPaths w)")
      case True
      then show ?thesis by simp
    next
      case False
      have c1: "card (fst ` set fs - set (prodPaths ?w1)) < n"
        using card_unvisited_step [OF _ False c] by simp
      show ?thesis
      proof (cases "loadPackageJSON fs p")
        case (Inl e)
        with False show ?thesis by simp
      next
        case (Inr o1)
        show ?thesis
        proof (cases o1)
          case None
          with Inr False show ?thesis by simp
        next
          case (Some pJ)
          from Visit(1) [OF False] Inr Some c1
          obtain r where r: "forEachModuleName n fs (dependencies pJ) p am ?w1 = Some r"
            by auto
          show ?thesis
          proof (cases r)
            case (Inl e)
            with r Inr Some False show ?thesis by (simp add: Let_def)
          next
            case (Inr w2)
            have "set (prodPaths ?w1) \<subseteq> set (prodPaths w2)"
              using visit_mono(2) r Inr by blast
            then have "card (fst ` set fs - set (prodPaths w2)) \<le>
                card (fst ` set fs - set (prodPaths ?w1))"
              by (intro card_Diff_mono) auto
            with c1 have "card (fst ` set fs - set (prodPaths w2)) < n" by simp
            with Visit(2) [OF False] \<open>loadPackageJSON fs p = Inr o1\<close> Some r Inr
            have "forEachModuleName n fs (optionalDependencies pJ) p True w2 \<noteq> None"
              by auto
            with r Inr \<open>loadPackageJSON fs p = Inr o1\<close> Some False show ?thesis
              by (simp add: Let_def)
          qed
        qed
      qed
    qed
  qed
next
  case (Nil n fs p am w)
  show ?case by simp
next
  case (Cons n fs name rest p am w)
  show ?case
  proof (intro impI)
    assume c: "card (fst ` set fs - set (prodPaths w)) < n"
    with Cons(1) obtain r where
      r: "loadProductionDependenciesForModuleInModule n fs name p am w = Some r" by auto
    show "forEachModuleName n fs (name # rest) p am w \<noteq> None"
    proof (cases r)
      case (Inl e)
      with r show ?thesis by simp
    next
      case (Inr w')
      have "set (prodPaths w) \<subseteq> set (prodPaths w')"
        using visit_mono(3) r Inr by blast
      then have "card (fst ` set fs - set (prodPaths w')) \<le> card (fst ` set fs - set (prodPaths w))"
        by (intro card_Diff_mono) auto
      with c Cons(2) r Inr show ?thesis by auto
    qed
  qed
next
  case (InModule n fs name p am w)
  show ?case
  proof (cases "resolve fs name p")
    case None
    then show ?thesis by (simp add: inModule_None)
  next
    case (Some d)
    then have "d \<in> fst ` set fs" by (intro pathExists_dom resolve_exists)
    then have "insert d (fst ` set fs) = fst ` set fs" by auto
    with InModule [OF Some] Some show ?thesis by (simp add: inModule_Some)
  qed
qed

lemma loadProductionDependencies_total: "loadProductionDependencies fs rootModule \<noteq> None"
proof -
  have "card (insert rootModule (fst ` set fs) - set []) \<le> Suc (card (fst ` set fs))"
    by (simp add: card_insert_le_m1)
  also have "\<dots> \<le> Suc (length fs)"
    using card_image_le [of "set fs" fst] card_length [of fs] by simp
  finally have "card (insert rootModule (fst ` set fs) - set (prodPaths \<lparr>prodPaths = [], loaded = []\<rparr>))
      < length fs + 2" by simp
  then show ?thesis
    unfolding loadProductionDependencies_def using visit_total(1) by blast
qed

subsection \<open>The results of one call, by cases\<close>

lemma forModule_Suc_Inr:
  "loadProductionDependenciesForModule (Suc n) fs p am w = Some (Inr w') \<longleftrightarrow>
     (p \<in> set (prodPaths w) \<and> w' = w) \<or>
     (p \<notin> set (prodPaths w) \<and>
       (loadPackageJSON fs p = Inr None \<and>
          w' = w\<lparr>prodPaths := set_add p (prodPaths w), loaded := loaded w @ [p]\<rparr>
        \<or> (\<exists>pJ w2. loadPackageJSON fs p = Inr (Some pJ) \<and>
              forEachModuleName n fs (dependencies pJ) p am
                (w\<lparr>prodPaths := set_add p (prodPaths w), loaded := loaded w @ [p]\<rparr>)
                = Some (Inr w2) \<and>
              forEachModuleName n fs (optionalDependencies pJ) p True w2 = Some (Inr w'))))"
  by (cases "loadPackageJSON fs p")
    (auto simp: Let_def split: option.splits sum.splits)

lemma forModule_Suc_Inl:
  "loadProductionDependenciesForModule (Suc n) fs p am w = Some (Inl e) \<longleftrightarrow>
     p \<notin> set (prodPaths w) \<and>
       (loadPackageJSON fs p = Inl e
        \<or> (\<exists>pJ. loadPackageJSON fs p = Inr (Some pJ) \<and>
              (forEachModuleName n fs (dependencies pJ) p am
                (w\<lparr>prodPaths := set_add p (prodPaths w), loaded := loaded w @ [p]\<rparr>)
                = Some (Inl e)
               \<or> (\<exists>w2. forEachModuleName n fs (dependencies pJ) p am
                    (w\<lparr>prodPaths := set_add p (prodPaths w), loaded := loaded w @ [p]\<rparr>)
                    = Some (Inr w2) \<and>
                   forEachModuleName n fs (optionalDependencies pJ) p True w2 = Some (Inl e)))))"
  by (cases "loadPackageJSON fs p")
    (auto simp: Let_def split: option.splits sum.splits)

lemma forEach_Cons_Inr:
  "forEachModuleName n fs (name # rest) p am w = Some (Inr w') \<longleftrightarrow>
     (\<exists>w1. loadProductionDependenciesForModuleInModule n fs name p am w = Some (Inr w1) \<and>
           forEachModuleName n fs rest p am w1 = Some (Inr w'))"
  by (auto split: option.splits sum.splits)

lemma forEach_Cons_Inl:
  "forEachModuleName n fs (name # rest) p am w = Some (Inl e) \<longleftrightarrow>
     loadProductionDependenciesForModuleInModule n fs name p am w = Some (Inl e) \<or>
     (\<exists>w1. loadProductionDependenciesForModuleInModule n fs name p am w = Some (Inr w1) \<and>
           forEachModuleName n fs rest p am w1 = Some (Inl e))"
  by (auto split: option.splits sum.splits)

lemma loadPackageJSON_error:
  "loadPackageJSON fs p = Inl e \<Longrightarrow> e = ReadJsonError (p @ [''package.json''])"
  by (auto simp: loadPackageJSON_def Let_def split: if_splits option.splits node.splits content.splits)

declare loadProductionDependenciesForModule.simps(2) [simp del]

declare forEachModuleName.simps(2) [simp del]

subsection \<open>Invariants of the traversal\<close>

lemma visit_fuel:
  "loadProductionDependenciesForModule n fs p am w = Some r \<longrightarrow>
     loadProductionDependenciesForModule (n + k) fs p am w = Some r"
  "forEachModuleName n fs names p am w = Some r \<longrightarrow>
     forEachModuleName (n + k) fs names p am w = Some r"
  "loadProductionDependenciesForModuleInModule n fs name p am w = Some r \<longrightarrow>
     loadProductionDependenciesForModuleInModule (n + k) fs name p am w = Some r"
proof (induction n fs p am w and n fs names p am w and n fs name p am w
    arbitrary: r and r and r rule: visit_induct)
  case (Zero fs p am w)
  show ?case by simp
next
  case (Visit n fs p am w)
  show ?case
  proof (cases r)
    case (Inl e)
    show ?thesis
      unfolding Inl add_Suc forModule_Suc_Inl using Visit by blast
  next
    case (Inr w')
    show ?thesis
      unfolding Inr add_Suc forModule_Suc_Inr using Visit by blast
  qed
next
  case (Nil n fs p am w)
  show ?case by simp
next
  case (Cons n fs name rest p am w)
  show ?case
  proof (cases r)
    case (Inl e)
    show ?thesis
      unfolding Inl forEach_Cons_Inl using Cons by blast
  next
    case (Inr w')
    show ?thesis
      unfolding Inr forEach_Cons_Inr using Cons by blast
  qed
next
  case (InModule n fs name p am w)
  show ?case
    using InModule by (cases "resolve fs name p") (auto simp: inModule_None inModule_Some)
qed

lemma visit_trace:
  "trace_ok w \<longrightarrow> loadProductionDependenciesForModule n fs p am w = Some (Inr w') \<longrightarrow> trace_ok w'"
  "trace_ok w \<longrightarrow> forEachModuleName n fs names p am w = Some (Inr w') \<longrightarrow> trace_ok w'"
  "trace_ok w \<longrightarrow> loadProductionDependenciesForModuleInModule n fs name p am w = Some (Inr w')
     \<longrightarrow> trace_ok w'"
proof (induction n fs p am w and n fs names p am w and n fs name p am w
    arbitrary: w' and w' and w' rule: visit_induct)
  case (Zero fs p am w)
  show ?case by simp
next
  case (Visit n fs p am w)
  let ?w1 = "w\<lparr>prodPaths := set_add p (prodPaths w), loaded := loaded w @ [p]\<rparr>"
  show ?case
  proof (intro impI)
    assume inv: "trace_ok w"
      and r: "loadProductionDependenciesForModule (Suc n) fs p am w = Some (Inr w')"
    have inv1: "p \<notin> set (prodPaths w) \<Longrightarrow> trace_ok ?w1"
      using inv by (simp add: set_add_def trace_ok_def)
    from r consider "w' = w" | "p \<notin> set (prodPaths w)" "w' = ?w1"
      | pJ w2 where "p \<notin> set (prodPaths w)" "loadPackageJSON fs p = Inr (Some pJ)"
        "forEachModuleName n fs (dependencies pJ) p am ?w1 = Some (Inr w2)"
        "forEachModuleName n fs (optionalDependencies pJ) p True w2 = Some (Inr w')"
      unfolding forModule_Suc_Inr by (elim disjE conjE exE) blast+
    then show "trace_ok w'"
    proof cases
      case 1
      with inv show ?thesis by simp
    next
      case 2
      with inv1 show ?thesis by simp
    next
      case 3
      from Visit(1) [OF 3(1,2)] inv1 [OF 3(1)] 3(3)
      have "trace_ok w2" by blast
      with Visit(2) [OF 3(1,2,3)] 3(4) show ?thesis by blast
    qed
  qed
next
  case (Nil n fs p am w)
  show ?case by clarsimp
next
  case (Cons n fs name rest p am w)
  show ?case
    unfolding forEach_Cons_Inr using Cons by blast
next
  case (InModule n fs name p am w)
  show ?case
    using InModule by (cases "resolve fs name p") (auto simp: inModule_None inModule_Some)
qed

lemma visit_tolerant:
  "am \<longrightarrow> loadProductionDependenciesForModule n fs p am w \<noteq> Some (Inl (ResolutionError a b))"
  "am \<longrightarrow> forEachModuleName n fs names p am w \<noteq> Some (Inl (ResolutionError a b))"
  "am \<longrightarrow> loadProductionDependenciesForModuleInModule n fs name p am w
     \<noteq> Some (Inl (ResolutionError a b))"
proof (induction n fs p am w and n fs names p am w and n fs name p am w rule: visit_induct)
  case (Zero fs p am w)
  show ?case by simp
next
  case (Visit n fs p am w)
  show ?case
    unfolding forModule_Suc_Inl using Visit loadPackageJSON_error [of fs p "ResolutionError a b"]
    by blast
next
  case (Nil n fs p am w)
  show ?case by simp
next
  case (Cons n fs name rest p am w)
  show ?case
    unfolding forEach_Cons_Inl using Cons by blast
next
  case (InModule n fs name p am w)
  show ?case
    using InModule by (cases "resolve fs name p") (auto simp: inModule_None inModule_Some)
qed

section \<open>The root, termination and the tolerance of optional branches\<close>

text \<open>
  Claim C2. Whenever \<^verbatim>\<open>loadProductionDependencies\<close> succeeds, the root module path is a
  member of the returned set; for a root without a descriptor file the run succeeds and the
  set is the root alone.
\<close>

theorem root_is_member:
  "(loadProductionDependencies fs rootModule = Some (Inr w) \<longrightarrow> rootModule \<in> set (prodPaths w))
   \<and> (loadPackageJSON fs rootModule = Inr None \<longrightarrow>
        loadProductionDependencies fs rootModule =
          Some (Inr \<lparr>prodPaths = [rootModule], loaded = [rootModule]\<rparr>))"
proof (intro conjI impI)
  assume "loadProductionDependencies fs rootModule = Some (Inr w)"
  then show "rootModule \<in> set (prodPaths w)"
    unfolding loadProductionDependencies_def using visit_mono(1) by blast
next
  assume "loadPackageJSON fs rootModule = Inr None"
  then show "loadProductionDependencies fs rootModule =
      Some (Inr \<lparr>prodPaths = [rootModule], loaded = [rootModule]\<rparr>)"
    by (simp add: loadProductionDependencies_def loadProductionDependenciesForModule.simps(2)
        set_add_def)
qed

theorem root_is_member_witness:
  "loadPackageJSON [([], Dir), ([''proj''], Dir)] [''proj''] = Inr None
   \<and> loadProductionDependencies [([], Dir), ([''proj''], Dir)] [''proj'']
       = Some (Inr \<lparr>prodPaths = [[''proj'']], loaded = [[''proj'']]\<rparr>)
   \<and> [''proj''] \<in> set (prodPaths \<lparr>prodPaths = [[''proj'']], loaded = [[''proj'']]\<rparr>)"
proof -
  have a: "loadPackageJSON [([], Dir), ([''proj''], Dir)] [''proj''] = Inr None"
    by (simp add: loadPackageJSON_def pathExists_def)
  from a root_is_member [of "[([], Dir), ([''proj''], Dir)]" "[''proj'']"
      "\<lparr>prodPaths = [[''proj'']], loaded = [[''proj'']]\<rparr>"]
  show ?thesis by simp
qed

lemma cyclic_install_run:
  "loadProductionDependencies cyclic_install [''proj''] =
     Some (Inr \<lparr>prodPaths = [[''proj''], [''proj'', ''node_modules'', ''a''],
                              [''proj'', ''node_modules'', ''b'']],
                 loaded = [[''proj''], [''proj'', ''node_modules'', ''a''],
                           [''proj'', ''node_modules'', ''b'']]\<rparr>)"
  by code_simp

text \<open>
  Claim C4. On every filesystem, with or without cycles and diamonds in the dependency
  graph, \<^verbatim>\<open>loadProductionDependencies\<close> returns (a set or an error), and a larger bound on
  the depth of the recursion gives the same result. In a returned set no module path
  occurs twice, and the descriptors that were loaded are those of the members, each loaded
  once.
\<close>

theorem build_terminates:
  "\<exists>r. loadProductionDependencies fs rootModule = Some r
     \<and> (\<forall>k. loadProductionDependenciesForModule (length fs + 2 + k) fs rootModule False
              \<lparr>prodPaths = [], loaded = []\<rparr> = Some r)
     \<and> (\<forall>w. r = Inr w \<longrightarrow> distinct (prodPaths w) \<and> loaded w = prodPaths w)"
proof -
  obtain r where r: "loadProductionDependencies fs rootModule = Some r"
    using loadProductionDependencies_total [of fs rootModule] by blast
  have "\<forall>k. loadProductionDependenciesForModule (length fs + 2 + k) fs rootModule False
              \<lparr>prodPaths = [], loaded = []\<rparr> = Some r"
    using r visit_fuel(1) unfolding loadProductionDependencies_def by blast
  moreover have "trace_ok \<lparr>prodPaths = [], loaded = []\<rparr>"
    by (simp add: trace_ok_def)
  then have "\<forall>w. r = Inr w \<longrightarrow> trace_ok w"
    using r visit_trace(1) unfolding loadProductionDependencies_def by blast
  ultimately show ?thesis using r by (auto simp: trace_ok_def)
qed

theorem build_terminates_witness:
  "\<exists>w. loadProductionDependencies cyclic_install [''proj''] = Some (Inr w)
       \<and> prodPaths w = [[''proj''], [''proj'', ''node_modules'', ''a''],
                         [''proj'', ''node_modules'', ''b'']]
       \<and> distinct (prodPaths w) \<and> loaded w = prodPaths w"
  using build_terminates [of cyclic_install "[''proj'']"] cyclic_install_run by auto

text \<open>
  Claim C6. The loop over \<^verbatim>\<open>optionalDependencies\<close> runs with the flag set; a call with
  the flag set passes it on to the module it finds and so to that module's own
  \<^verbatim>\<open>dependencies\<close>, and at no depth does it end in a resolution error; a name that does
  not resolve is skipped and leaves the set as it was.
\<close>

theorem optional_branch_tolerant:
  "(modulePath \<notin> set (prodPaths w) \<longrightarrow> loadPackageJSON fs modulePath = Inr (Some pJ) \<longrightarrow>
      forEachModuleName n fs (dependencies pJ) modulePath allowMissing
        (w\<lparr>prodPaths := set_add modulePath (prodPaths w), loaded := loaded w @ [modulePath]\<rparr>)
        = Some (Inr w2) \<longrightarrow>
      loadProductionDependenciesForModule (Suc n) fs modulePath allowMissing w
        = forEachModuleName n fs (optionalDependencies pJ) modulePath True w2)
   \<and> forEachModuleName n fs names modulePath True w2 \<noteq> Some (Inl (ResolutionError a b))
   \<and> (resolve fs moduleName modulePath = Some d \<longrightarrow>
        loadProductionDependenciesForModuleInModule n fs moduleName modulePath True w2
          = loadProductionDependenciesForModule n fs d True w2)
   \<and> loadProductionDependenciesForModule n fs d True w2 \<noteq> Some (Inl (ResolutionError a b))
   \<and> (resolve fs moduleName modulePath = None \<longrightarrow>
        loadProductionDependenciesForModuleInModule n fs moduleName modulePath True w2
          = Some (Inr w2))"
  using visit_tolerant(1) [of True n fs d w2 a b] visit_tolerant(2) [of True n fs names modulePath w2 a b]
  by (simp add: inModule_None inModule_Some loadProductionDependenciesForModule.simps(2) Let_def)

text \<open>With \<open>c\<close> optional, the run returns the root, \<open>c\<close> and \<open>d\<close>, and no error.\<close>

lemma optional_install_run:
  "loadProductionDependencies optional_install [''proj''] =
     Some (Inr \<lparr>prodPaths = [[''proj''], [''proj'', ''node_modules'', ''c''],
                              [''proj'', ''node_modules'', ''d'']],
                 loaded = [[''proj''], [''proj'', ''node_modules'', ''c''],
                           [''proj'', ''node_modules'', ''d'']]\<rparr>)"
  by code_simp

text \<open>Entered without the flag, the same module \<open>d\<close> fails on its missing \<open>e\<close>.\<close>

lemma optional_install_required:
  "loadProductionDependenciesForModule 3 optional_install [''proj'', ''node_modules'', ''d'']
     False \<lparr>prodPaths = [], loaded = []\<rparr>
   = Some (Inl (ResolutionError ''e'' [''proj'', ''node_modules'', ''d'']))"
  by code_simp

theorem optional_branch_tolerant_witness:
  "resolve optional_install ''e'' [''proj'', ''node_modules'', ''d''] = None
   \<and> loadProductionDependenciesForModuleInModule 0 optional_install ''e''
        [''proj'', ''node_modules'', ''d''] True \<lparr>prodPaths = [], loaded = []\<rparr>
       = Some (Inr \<lparr>prodPaths = [], loaded = []\<rparr>)
   \<and> loadProductionDependencies optional_install [''proj''] =
       Some (Inr \<lparr>prodPaths = [[''proj''], [''proj'', ''node_modules'', ''c''],
                                [''proj'', ''node_modules'', ''d'']],
                   loaded = [[''proj''], [''proj'', ''node_modules'', ''c''],
                             [''proj'', ''node_modules'', ''d'']]\<rparr>)"
proof -
  have a: "resolve optional_install ''e'' [''proj'', ''node_modules'', ''d''] = None"
    by code_simp
  from a optional_branch_tolerant [of "[''proj'', ''node_modules'', ''d'']"
      "\<lparr>prodPaths = [], loaded = []\<rparr>" optional_install _ 0 True
      "\<lparr>prodPaths = [], loaded = []\<rparr>" "[]" "''e''" "[]" "''e''" "[]"]
    optional_install_run
  show ?thesis by simp
qed

section \<open>Members are reachable through production edges\<close>

lemma production_edgeI:
  "loadPackageJSON fs p = Inr (Some pJ) \<Longrightarrow>
   name \<in> set (dependencies pJ) \<union> set (optionalDependencies pJ) \<Longrightarrow>
   resolve fs name p = Some d \<Longrightarrow> production_edge fs p d"
  by (force simp: production_edge_def production_edges_def List.map_filter_def)

lemma visit_reachable:
  "(\<forall>m \<in> set (prodPaths w). (production_edge fs)\<^sup>*\<^sup>* root m) \<and> (production_edge fs)\<^sup>*\<^sup>* root p \<longrightarrow>
   loadProductionDependenciesForModule n fs p am w = Some (Inr w') \<longrightarrow>
   (\<forall>m \<in> set (prodPaths w'). (production_edge fs)\<^sup>*\<^sup>* root m)"
  "(\<forall>m \<in> set (prodPaths w). (production_edge fs)\<^sup>*\<^sup>* root m) \<and> (production_edge fs)\<^sup>*\<^sup>* root p
     \<and> (\<exists>pJ. loadPackageJSON fs p = Inr (Some pJ) \<and>
            set names \<subseteq> set (dependencies pJ) \<union> set (optionalDependencies pJ)) \<longrightarrow>
   forEachModuleName n fs names p am w = Some (Inr w') \<longrightarrow>
   (\<forall>m \<in> set (prodPaths w'). (production_edge fs)\<^sup>*\<^sup>* root m)"
  "(\<forall>m \<in> set (prodPaths w). (production_edge fs)\<^sup>*\<^sup>* root m) \<and> (production_edge fs)\<^sup>*\<^sup>* root p
     \<and> (\<exists>pJ. loadPackageJSON fs p = Inr (Some pJ) \<and>
            name \<in> set (dependencies pJ) \<union> set (optionalDependencies pJ)) \<longrightarrow>
   loadProductionDependenciesForModuleInModule n fs name p am w = Some (Inr w') \<longrightarrow>
   (\<forall>m \<in> set (prodPaths w'). (production_edge fs)\<^sup>*\<^sup>* root m)"
proof (induction n fs p am w and n fs names p am w and n fs name p am w
    arbitrary: w' and w' and w' rule: visit_induct)
  case (Zero fs p am w)
  show ?case by simp
next
  case (Visit n fs p am w)
  let ?w1 = "w\<lparr>prodPaths := set_add p (prodPaths w), loaded := loaded w @ [p]\<rparr>"
  let ?R = "\<lambda>m. (production_edge fs)\<^sup>*\<^sup>* root m"
  show ?case
  proof (intro impI)
    assume inv: "(\<forall>m \<in> set (prodPaths w). ?R m) \<and> ?R p"
      and r: "loadProductionDependenciesForModule (Suc n) fs p am w = Some (Inr w')"
    have inv1: "\<forall>m \<in> set (prodPaths ?w1). ?R m"
      using inv by simp
    from r consider "w' = w" | "p \<notin> set (prodPaths w)" "w' = ?w1"
      | pJ w2 where "p \<notin> set (prodPaths w)" "loadPackageJSON fs p = Inr (Some pJ)"
        "forEachModuleName n fs (dependencies pJ) p am ?w1 = Some (Inr w2)"
        "forEachModuleName n fs (optionalDependencies pJ) p True w2 = Some (Inr w')"
      unfolding forModule_Suc_Inr by (elim disjE conjE exE) blast+
    then show "\<forall>m \<in> set (prodPaths w'). ?R m"
    proof cases
      case 1
      with inv show ?thesis by simp
    next
      case 2
      with inv1 show ?thesis by simp
    next
      case 3
      have "\<exists>pJ'. loadPackageJSON fs p = Inr (Some pJ') \<and>
          set (dependencies pJ) \<subseteq> set (dependencies pJ') \<union> set (optionalDependencies pJ')"
        using 3(2) by auto
      with Visit(1) [OF 3(1,2)] inv1 inv 3(3)
      have inv2: "\<forall>m \<in> set (prodPaths w2). ?R m" by blast
      have "\<exists>pJ'. loadPackageJSON fs p = Inr (Some pJ') \<and>
          set (optionalDependencies pJ) \<subseteq> set (dependencies pJ') \<union> set (optionalDependencies pJ')"
        using 3(2) by auto
      with Visit(2) [OF 3(1,2,3)] inv2 inv 3(4) show ?thesis by blast
    qed
  qed
next
  case (Nil n fs p am w)
  show ?case by clarsimp
next
  case (Cons n fs name rest p am w)
  let ?R = "\<lambda>m. (production_edge fs)\<^sup>*\<^sup>* root m"
  show ?case
  proof (intro impI)
    assume inv: "(\<forall>m \<in> set (prodPaths w). ?R m) \<and> ?R p
     \<and> (\<exists>pJ. loadPackageJSON fs p = Inr (Some pJ) \<and>
            set (name # rest) \<subseteq> set (dependencies pJ) \<union> set (optionalDependencies pJ))"
      and r: "forEachModuleName n fs (name # rest) p am w = Some (Inr w')"
    from r obtain w1 where
      a: "loadProductionDependenciesForModuleInModule n fs name p am w = Some (Inr w1)"
      and b: "forEachModuleName n fs rest p am w1 = Some (Inr w')"
      unfolding forEach_Cons_Inr by blast
    from inv have "\<exists>pJ. loadPackageJSON fs p = Inr (Some pJ) \<and>
            name \<in> set (dependencies pJ) \<union> set (optionalDependencies pJ)" by auto
    with Cons(1) inv a have inv1: "\<forall>m \<in> set (prodPaths w1). ?R m" by blast
    from inv have "\<exists>pJ. loadPackageJSON fs p = Inr (Some pJ) \<and>
            set rest \<subseteq> set (dependencies pJ) \<union> set (optionalDependencies pJ)" by auto
    with Cons(2) [OF a] inv1 inv b show "\<forall>m \<in> set (prodPaths w'). ?R m" by blast
  qed
next
  case (InModule n fs name p am w)
  let ?R = "\<lambda>m. (production_edge fs)\<^sup>*\<^sup>* root m"
  show ?case
  proof (cases "resolve fs name p")
    case None
    then show ?thesis by (auto simp: inModule_None)
  next
    case (Some d)
    show ?thesis
    proof (intro impI)
      assume inv: "(\<forall>m \<in> set (prodPaths w). ?R m) \<and> ?R p
         \<and> (\<exists>pJ. loadPackageJSON fs p = Inr (Some pJ) \<and>
            name \<in> set (dependencies pJ) \<union> set (optionalDependencies pJ))"
        and r: "loadProductionDependenciesForModuleInModule n fs name p am w = Some (Inr w')"
      from inv Some have "production_edge fs p d" using production_edgeI by blast
      with inv have "?R d" by (meson rtranclp.rtrancl_into_rtrancl)
      moreover from r Some have "loadProductionDependenciesForModule n fs d am w = Some (Inr w')"
        by (simp add: inModule_Some)
      ultimately show "\<forall>m \<in> set (prodPaths w'). ?R m"
        using InModule [OF Some] inv by blast
    qed
  qed
qed

subsection \<open>No \<open>devDependencies\<close> map is read\<close>

lemma map_of_erase_dev: "map_of (erase_dev fs) p = map_option erase_dev_node (map_of fs p)"
  by (induction fs) (auto simp: erase_dev_def)

lemma pathExists_erase_dev: "pathExists (erase_dev fs) p = pathExists fs p"
  by (simp add: pathExists_def map_of_erase_dev)

lemma search_body_erase_dev: "search_body (erase_dev fs) moduleName s = search_body fs moduleName s"
  by (simp add: search_body_def pathExists_erase_dev)

lemma search_loop_erase_dev: "search_loop (erase_dev fs) moduleName s = search_loop fs moduleName s"
proof (induction fs moduleName s rule: search_loop.induct)
  case (1 fs moduleName s)
  show ?case
  proof (cases "search_cond moduleName s")
    case True
    then show ?thesis
      using "1.IH" search_loop.simps [of fs moduleName s]
        search_loop.simps [of "erase_dev fs" moduleName s]
      by (simp add: search_body_erase_dev)
  next
    case False
    then show ?thesis
      using search_loop.simps [of fs moduleName s] search_loop.simps [of "erase_dev fs" moduleName s]
      by simp
  qed
qed

lemma resolve_erase_dev: "resolve (erase_dev fs) moduleName modulePath = resolve fs moduleName modulePath"
  by (simp add: resolve_def search_loop_erase_dev)

lemma loadPackageJSON_erase_dev:
  "loadPackageJSON (erase_dev fs) p =
     (case loadPackageJSON fs p of
        Inl e \<Rightarrow> Inl e
      | Inr None \<Rightarrow> Inr None
      | Inr (Some pJ) \<Rightarrow> Inr (Some (pJ\<lparr>devDependencies := []\<rparr>)))"
  by (simp add: loadPackageJSON_def pathExists_erase_dev map_of_erase_dev erase_dev_node_def Let_def
      split: option.splits node.splits content.splits)

lemma visit_erase_dev:
  "loadProductionDependenciesForModule n (erase_dev fs) p am w =
     loadProductionDependenciesForModule n fs p am w"
  "forEachModuleName n (erase_dev fs) names p am w = forEachModuleName n fs names p am w"
  "loadProductionDependenciesForModuleInModule n (erase_dev fs) name p am w =
     loadProductionDependenciesForModuleInModule n fs name p am w"
proof (induction n fs p am w and n fs names p am w and n fs name p am w rule: visit_induct)
  case (Zero fs p am w)
  show ?case by simp
next
  case (Visit n fs p am w)
  show ?case
  proof (cases "p \<in> set (prodPaths w)")
    case True
    then show ?thesis by (simp add: loadProductionDependenciesForModule.simps(2))
  next
    case False
    show ?thesis
    proof (cases "loadPackageJSON fs p")
      case (Inl e)
      then show ?thesis
        by (simp add: loadProductionDependenciesForModule.simps(2) loadPackageJSON_erase_dev)
    next
      case (Inr o1)
      show ?thesis
      proof (cases o1)
        case None
        with Inr show ?thesis
          by (simp add: loadProductionDependenciesForModule.simps(2) loadPackageJSON_erase_dev)
      next
        case (Some pJ)
        with Inr False Visit(1) [OF False, of pJ] Visit(2) [OF False, of pJ] show ?thesis
          by (simp add: loadProductionDependenciesForModule.simps(2) loadPackageJSON_erase_dev
              Let_def split: option.splits sum.splits)
      qed
    qed
  qed
next
  case (Nil n fs p am w)
  show ?case by simp
next
  case (Cons n fs name rest p am w)
  then show ?case
    by (simp add: forEachModuleName.simps(2) split: option.splits sum.splits)
next
  case (InModule n fs name p am w)
  then show ?case
    by (cases "resolve fs name p") (simp_all add: inModule_None inModule_Some resolve_erase_dev)
qed

lemma loadProductionDependencies_erase_dev:
  "loadProductionDependencies (erase_dev fs) rootModule = loadProductionDependencies fs rootModule"
  by (simp add: loadProductionDependencies_def visit_erase_dev(1)) (simp add: erase_dev_def)

text \<open>
  Claim C3. Every member of the returned set is reached from the root by a chain of edges,
  each from a module to what a key of its \<open>dependencies\<close> or \<open>optionalDependencies\<close>
  resolves to; and the run does not depend on any \<open>devDependencies\<close> map: two
  filesystems that differ only there give the same result.
\<close>

theorem members_reachable:
  "(loadProductionDependencies fs rootModule = Some (Inr w) \<longrightarrow>
      (\<forall>m \<in> set (prodPaths w). (production_edge fs)\<^sup>*\<^sup>* rootModule m))
   \<and> (erase_dev fs = erase_dev fs' \<longrightarrow>
        loadProductionDependencies fs rootModule = loadProductionDependencies fs' rootModule)"
proof (intro conjI impI)
  assume "loadProductionDependencies fs rootModule = Some (Inr w)"
  then show "\<forall>m \<in> set (prodPaths w). (production_edge fs)\<^sup>*\<^sup>* rootModule m"
    unfolding loadProductionDependencies_def
    using visit_reachable(1) [of "\<lparr>prodPaths = [], loaded = []\<rparr>" fs rootModule rootModule]
    by auto
next
  assume "erase_dev fs = erase_dev fs'"
  then show "loadProductionDependencies fs rootModule = loadProductionDependencies fs' rootModule"
    using loadProductionDependencies_erase_dev [of fs rootModule]
      loadProductionDependencies_erase_dev [of fs' rootModule] by simp
qed

lemma scenario_install_run:
  "loadProductionDependencies (scenario_install [''b'']) [''proj''] =
     Some (Inr \<lparr>prodPaths = [[''proj''], [''proj'', ''node_modules'', ''a'']],
                 loaded = [[''proj''], [''proj'', ''node_modules'', ''a'']]\<rparr>)"
  by code_simp

theorem members_reachable_witness:
  "loadProductionDependencies (scenario_install [''b'']) [''proj''] =
     Some (Inr \<lparr>prodPaths = [[''proj''], [''proj'', ''node_modules'', ''a'']],
                 loaded = [[''proj''], [''proj'', ''node_modules'', ''a'']]\<rparr>)
   \<and> (production_edge (scenario_install [''b'']))\<^sup>*\<^sup>* [''proj'']
        [''proj'', ''node_modules'', ''a'']
   \<and> erase_dev (scenario_install [''b'']) = erase_dev (scenario_install [''a'', ''x''])
   \<and> loadProductionDependencies (scenario_install [''b'']) [''proj'']
       = loadProductionDependencies (scenario_install [''a'', ''x'']) [''proj'']"
proof -
  have e: "erase_dev (scenario_install [''b'']) = erase_dev (scenario_install [''a'', ''x''])"
    by (simp add: erase_dev_def scenario_install_def erase_dev_node_def)
  from members_reachable [of "scenario_install [''b'']" "[''proj'']"
      "\<lparr>prodPaths = [[''proj''], [''proj'', ''node_modules'', ''a'']],
        loaded = [[''proj''], [''proj'', ''node_modules'', ''a'']]\<rparr>"
      "scenario_install [''a'', ''x'']"] scenario_install_run e
  show ?thesis by simp
qed

section \<open>The end of the search and the resolution error\<close>

lemma subcall_error:
  "subcall fs c c' \<Longrightarrow> run_call fs c' = Some (Inl e) \<Longrightarrow> run_call fs c = Some (Inl e)"
proof (induction rule: subcall.induct)
  case (dependencies_loop p w pJ n am)
  then show ?case by (simp add: forModule_Suc_Inl)
next
  case (optional_loop p w pJ n am w2)
  then show ?case by (simp add: forModule_Suc_Inl)
next
  case (loop_head n name rest p am w)
  then show ?case by (simp add: forEach_Cons_Inl)
next
  case (loop_tail n name p am w w' rest)
  then show ?case by (simp add: forEach_Cons_Inl)
next
  case (found name p d n am w)
  then show ?case by (simp add: inModule_Some)
qed

lemma subcalls_error:
  "(subcall fs)\<^sup>*\<^sup>* c c' \<Longrightarrow> run_call fs c' = Some (Inl e) \<Longrightarrow> run_call fs c = Some (Inl e)"
  by (induction rule: rtranclp_induct) (auto intro: subcall_error)

lemma search_reach_inv: "search_reach fs moduleName modulePath s \<Longrightarrow> search_inv moduleName s"
  by (induction rule: search_reach.induct)
    (auto simp: search_inv_def search_body_def Let_def discoveredPath_def lastRelative_def
      testPath_def search_cond_def)

lemma search_cond_iff:
  "search_reach fs moduleName modulePath s \<Longrightarrow>
   search_cond moduleName s \<longleftrightarrow> Some (relativeModule (testPath s) moduleName) \<noteq> lastRelative s"
  using search_reach_inv [of fs moduleName modulePath s]
  by (auto simp: search_inv_def search_cond_def)

lemma search_loop_reach:
  "search_reach fs moduleName modulePath s \<Longrightarrow>
   search_reach fs moduleName modulePath (search_loop fs moduleName s)
   \<and> \<not> search_cond moduleName (search_loop fs moduleName s)"
proof (induction fs moduleName s rule: search_loop.induct)
  case (1 fs moduleName s)
  show ?case
  proof (cases "search_cond moduleName s")
    case True
    with "1.prems" have "search_reach fs moduleName modulePath (search_body fs moduleName s)"
      by (rule search_reach.step)
    with "1.IH" [OF True] True show ?thesis
      by (simp add: search_loop.simps [of fs moduleName s])
  next
    case False
    with "1.prems" show ?thesis by (simp add: search_loop.simps [of fs moduleName s])
  qed
qed

text \<open>
  Claim C5. In every state the loop of the resolver passes through, the loop goes on
  exactly when the candidate of the current \<^verbatim>\<open>testPath\<close> differs from
  \<^verbatim>\<open>lastRelative\<close>; the loop always ends, in a state where the two are equal. If
  nothing was found then, the call without \<^verbatim>\<open>allowMissing\<close> returns the error that
  carries the module name and the directory the resolution started from, and the call
  with \<^verbatim>\<open>allowMissing\<close> returns the state unchanged. The error of a call made anywhere
  below the root call is the result of \<^verbatim>\<open>loadProductionDependencies\<close>.
\<close>

theorem search_stops_and_fails:
  "(search_reach fs moduleName modulePath s \<longrightarrow>
      (search_cond moduleName s \<longleftrightarrow>
         Some (relativeModule (testPath s) moduleName) \<noteq> lastRelative s))
   \<and> search_reach fs moduleName modulePath (search_loop fs moduleName (modulePath, None, None))
   \<and> lastRelative (search_loop fs moduleName (modulePath, None, None)) =
       Some (relativeModule (testPath (search_loop fs moduleName (modulePath, None, None)))
         moduleName)
   \<and> (resolve fs moduleName modulePath = None \<longrightarrow>
        loadProductionDependenciesForModuleInModule n fs moduleName modulePath False w
          = Some (Inl (ResolutionError moduleName modulePath))
        \<and> loadProductionDependenciesForModuleInModule n fs moduleName modulePath True w
          = Some (Inr w))
   \<and> (resolve fs moduleName modulePath = None \<longrightarrow>
        (subcall fs)\<^sup>*\<^sup>*
          (CallForModule (length fs + 2) rootModule False \<lparr>prodPaths = [], loaded = []\<rparr>)
          (CallInModule n moduleName modulePath False w) \<longrightarrow>
        loadProductionDependencies fs rootModule
          = Some (Inl (ResolutionError moduleName modulePath)))"
proof -
  let ?s = "search_loop fs moduleName (modulePath, None, None)"
  have r: "search_reach fs moduleName modulePath ?s" and c: "\<not> search_cond moduleName ?s"
    using search_loop_reach [OF search_reach.init, of fs moduleName modulePath] by simp_all
  from c search_cond_iff [OF r]
  have l: "lastRelative ?s = Some (relativeModule (testPath ?s) moduleName)" by simp
  have e: "resolve fs moduleName modulePath = None \<Longrightarrow>
      run_call fs (CallInModule n moduleName modulePath False w)
        = Some (Inl (ResolutionError moduleName modulePath))"
    by (simp add: inModule_None)
  show ?thesis
    using search_cond_iff [of fs moduleName modulePath s] r l
      subcalls_error [of fs "CallForModule (length fs + 2) rootModule False \<lparr>prodPaths = [], loaded = []\<rparr>"
        "CallInModule n moduleName modulePath False w" "ResolutionError moduleName modulePath"] e
    by (simp add: inModule_None loadProductionDependencies_def)
qed

lemma optional_install_d:
  "loadPackageJSON optional_install [''proj'', ''node_modules'', ''d''] =
     Inr (Some \<lparr>dependencies = [''e''], devDependencies = [], optionalDependencies = []\<rparr>)"
  by code_simp

lemma optional_install_e: "resolve optional_install ''e'' [''proj'', ''node_modules'', ''d''] = None"
  by code_simp

theorem search_stops_and_fails_witness:
  "resolve optional_install ''e'' [''proj'', ''node_modules'', ''d''] = None
   \<and> (subcall optional_install)\<^sup>*\<^sup>*
        (CallForModule (length optional_install + 2) [''proj'', ''node_modules'', ''d''] False
           \<lparr>prodPaths = [], loaded = []\<rparr>)
        (CallInModule 9 ''e'' [''proj'', ''node_modules'', ''d''] False
           \<lparr>prodPaths = [[''proj'', ''node_modules'', ''d'']],
             loaded = [[''proj'', ''node_modules'', ''d'']]\<rparr>)
   \<and> loadProductionDependencies optional_install [''proj'', ''node_modules'', ''d'']
       = Some (Inl (ResolutionError ''e'' [''proj'', ''node_modules'', ''d'']))"
proof -
  let ?D = "[''proj'', ''node_modules'', ''d'']"
  let ?w1 = "\<lparr>prodPaths = [?D], loaded = [?D]\<rparr>"
  have n: "length optional_install + 2 = Suc 9"
    by (simp add: optional_install_def)
  have "subcall optional_install (CallForModule (Suc 9) ?D False \<lparr>prodPaths = [], loaded = []\<rparr>)
      (CallForEach 9 [''e''] ?D False ?w1)"
    using subcall.dependencies_loop [of ?D "\<lparr>prodPaths = [], loaded = []\<rparr>" optional_install
        "\<lparr>dependencies = [''e''], devDependencies = [], optionalDependencies = []\<rparr>" 9 False]
      optional_install_d
    by (simp add: set_add_def)
  moreover have "subcall optional_install (CallForEach 9 [''e''] ?D False ?w1)
      (CallInModule 9 ''e'' ?D False ?w1)"
    by (rule subcall.loop_head)
  ultimately have c: "(subcall optional_install)\<^sup>*\<^sup>*
      (CallForModule (length optional_install + 2) ?D False \<lparr>prodPaths = [], loaded = []\<rparr>)
      (CallInModule 9 ''e'' ?D False ?w1)"
    unfolding n by (meson rtranclp.rtrancl_into_rtrancl rtranclp.rtrancl_refl)
  from search_stops_and_fails [of optional_install "''e''" ?D _ 9 ?w1 ?D] optional_install_e c
  show ?thesis by simp
qed

section \<open>The owning module of a path\<close>

lemma prefix_dirnameD: "prefix q (dirname t) \<Longrightarrow> prefix q t"
  unfolding dirname_def using prefixeq_butlast [of t] prefix_order.trans by blast

lemma prefix_dirnameI: "prefix q t \<Longrightarrow> q \<noteq> t \<Longrightarrow> prefix q (dirname t)"
  unfolding dirname_def by (cases t rule: rev_cases) simp_all

lemma nearest_step:
  "map_of fs t = Some n \<Longrightarrow> \<not> module_dir fs t \<Longrightarrow>
   getNearestModuleDirectory fs t = getNearestModuleDirectory fs (dirname t)"
  by (subst getNearestModuleDirectory.simps) (auto simp: statIsDirectory_def module_dir_def)

lemma nearest_found:
  "module_dir fs t \<Longrightarrow> getNearestModuleDirectory fs t = Some (Inr t)"
  by (subst getNearestModuleDirectory.simps) (auto simp: statIsDirectory_def module_dir_def)

lemma nearest_missing:
  "map_of fs t = None \<Longrightarrow>
   getNearestModuleDirectory fs t = Some (Inl (stat_error fs [] t t))"
  by (subst getNearestModuleDirectory.simps) (auto simp: statIsDirectory_def)

subsection \<open>The error on a path that does not exist\<close>

lemma stat_error_kind: "stat_error fs cur xs p = ENOENT p \<or> stat_error fs cur xs p = ENOTDIR p"
  by (induction xs arbitrary: cur) (auto split: option.splits node.splits)

lemma stat_error_same:
  "(\<forall>q. prefix q (cur @ xs) \<longrightarrow>
      pathExists fs q = pathExists fs' q
      \<and> (map_of fs q = Some Dir) = (map_of fs' q = Some Dir)) \<Longrightarrow>
   stat_error fs cur xs p = stat_error fs' cur xs p"
proof (induction xs arbitrary: cur)
  case Nil
  show ?case by simp
next
  case (Cons x xs)
  from Cons.prems have c: "pathExists fs cur = pathExists fs' cur"
    "(map_of fs cur = Some Dir) = (map_of fs' cur = Some Dir)"
    by simp_all
  from Cons.prems have "\<forall>q. prefix q ((cur @ [x]) @ xs) \<longrightarrow>
      pathExists fs q = pathExists fs' q
      \<and> (map_of fs q = Some Dir) = (map_of fs' q = Some Dir)"
    by simp
  then have ih: "stat_error fs (cur @ [x]) xs p = stat_error fs' (cur @ [x]) xs p"
    by (rule Cons.IH)
  show ?case
  proof (cases "map_of fs cur")
    case None
    with c(1) have "map_of fs' cur = None" by (simp add: pathExists_def)
    with None show ?thesis by simp
  next
    case (Some n)
    show ?thesis
    proof (cases n)
      case Dir
      with Some c(2) have "map_of fs' cur = Some Dir" by simp
      with Some Dir ih show ?thesis by simp
    next
      case (File d)
      with Some c obtain d' where "map_of fs' cur = Some (File d')"
        by (cases "map_of fs' cur") (auto simp: pathExists_def intro: node.exhaust)
      with Some File show ?thesis by simp
    qed
  qed
qed

lemma stat_error_ENOTDIR_from:
  "stat_error fs cur xs p = ENOTDIR p \<longleftrightarrow>
     (\<exists>ys z zs c. xs = ys @ z # zs \<and> map_of fs (cur @ ys) = Some (File c)
        \<and> (\<forall>ys'. strict_prefix ys' ys \<longrightarrow> map_of fs (cur @ ys') = Some Dir))"
proof (induction xs arbitrary: cur)
  case Nil
  show ?case by simp
next
  case (Cons x xs)
  let ?R = "\<lambda>cur xs. \<exists>ys z zs c. xs = ys @ z # zs \<and> map_of fs (cur @ ys) = Some (File c)
        \<and> (\<forall>ys'. strict_prefix ys' ys \<longrightarrow> map_of fs (cur @ ys') = Some Dir)"
  have first: "map_of fs cur = Some Dir \<or> (\<exists>c. map_of fs cur = Some (File c))" if "?R cur (x # xs)"
  proof -
    from that obtain ys z zs c where r: "x # xs = ys @ z # zs"
      "map_of fs (cur @ ys) = Some (File c)"
      "\<forall>ys'. strict_prefix ys' ys \<longrightarrow> map_of fs (cur @ ys') = Some Dir" by blast
    show ?thesis
    proof (cases ys)
      case Nil
      with r(2) show ?thesis by simp
    next
      case (Cons y ys1)
      then have "strict_prefix [] ys" by simp
      with r(3) show ?thesis by fastforce
    qed
  qed
  show ?case
  proof (cases "map_of fs cur")
    case None
    with first show ?thesis by auto
  next
    case (Some n)
    show ?thesis
    proof (cases n)
      case (File d)
      have "x # xs = [] @ x # xs \<and> map_of fs (cur @ []) = Some (File d)
          \<and> (\<forall>ys'. strict_prefix ys' [] \<longrightarrow> map_of fs (cur @ ys') = Some Dir)"
        using Some File by simp
      then have "?R cur (x # xs)" by blast
      with Some File show ?thesis by simp
    next
      case Dir
      have "?R cur (x # xs) \<longleftrightarrow> ?R (cur @ [x]) xs"
      proof
        assume "?R cur (x # xs)"
        then obtain ys z zs c where r: "x # xs = ys @ z # zs"
          "map_of fs (cur @ ys) = Some (File c)"
          "\<forall>ys'. strict_prefix ys' ys \<longrightarrow> map_of fs (cur @ ys') = Some Dir" by blast
        from r(2) Some Dir have "ys \<noteq> []" by auto
        with r(1) obtain ys1 where ys: "ys = x # ys1" "xs = ys1 @ z # zs"
          by (cases ys) auto
        have "\<forall>ys'. strict_prefix ys' ys1 \<longrightarrow> map_of fs ((cur @ [x]) @ ys') = Some Dir"
        proof (intro allI impI)
          fix ys' assume "strict_prefix ys' ys1"
          then have "strict_prefix (x # ys') ys" by (simp add: ys(1))
          with r(3) show "map_of fs ((cur @ [x]) @ ys') = Some Dir" by fastforce
        qed
        with ys r(2) show "?R (cur @ [x]) xs" by auto
      next
        assume "?R (cur @ [x]) xs"
        then obtain ys z zs c where r: "xs = ys @ z # zs"
          "map_of fs ((cur @ [x]) @ ys) = Some (File c)"
          "\<forall>ys'. strict_prefix ys' ys \<longrightarrow> map_of fs ((cur @ [x]) @ ys') = Some Dir" by blast
        have "\<forall>ys'. strict_prefix ys' (x # ys) \<longrightarrow> map_of fs (cur @ ys') = Some Dir"
        proof (intro allI impI)
          fix ys' assume a: "strict_prefix ys' (x # ys)"
          show "map_of fs (cur @ ys') = Some Dir"
          proof (cases ys')
            case Nil
            with Some Dir show ?thesis by simp
          next
            case (Cons y ys2)
            with a have "y = x" "strict_prefix ys2 ys" by (auto simp: strict_prefix_def)
            with r(3) Cons show ?thesis by fastforce
          qed
        qed
        moreover have "x # xs = (x # ys) @ z # zs" using r(1) by simp
        moreover have "map_of fs (cur @ x # ys) = Some (File c)" using r(2) by simp
        ultimately show "?R cur (x # xs)" by blast
      qed
      with Cons.IH [of "cur @ [x]"] Some Dir show ?thesis by simp
    qed
  qed
qed

lemma stat_error_ENOTDIR_iff:
  "stat_error fs [] p p = ENOTDIR p \<longleftrightarrow>
     (\<exists>q c. strict_prefix q p \<and> map_of fs q = Some (File c)
        \<and> (\<forall>r. strict_prefix r q \<longrightarrow> map_of fs r = Some Dir))"
proof -
  have "(\<exists>z zs. p = q @ z # zs) \<longleftrightarrow> strict_prefix q p" for q
    by (metis strict_prefixE' strict_prefixI')
  then show ?thesis
    unfolding stat_error_ENOTDIR_from [of fs "[]" p p] by auto
qed

lemma no_longer_prefix: "prefix q' t \<Longrightarrow> strict_prefix t q' \<Longrightarrow> False"
  by (simp add: prefix_order.less_le_not_le)

lemma nearest_returns_cause:
  "getNearestModuleDirectory fs t = Some y \<Longrightarrow>
   \<exists>q. prefix q t \<and> (map_of fs q = None \<and> y = Inl (stat_error fs [] q q) \<or> module_dir fs q \<and> y = Inr q)
       \<and> (\<forall>q'. prefix q' t \<and> strict_prefix q q' \<longrightarrow> map_of fs q' \<noteq> None \<and> \<not> module_dir fs q')"
proof (induction rule: getNearestModuleDirectory.raw_induct [rotated 1, consumes 1])
  case (1 rec fs tPath y)
  have top: "\<forall>q'. prefix q' tPath \<and> strict_prefix tPath q' \<longrightarrow>
      map_of fs q' \<noteq> None \<and> \<not> module_dir fs q'"
    using no_longer_prefix by blast
  show ?case
  proof (cases "map_of fs tPath")
    case None
    with 1(2) have "y = Inl (stat_error fs [] tPath tPath)" by (simp add: statIsDirectory_def)
    with None top have "prefix tPath tPath \<and>
        (map_of fs tPath = None \<and> y = Inl (stat_error fs [] tPath tPath) \<or> module_dir fs tPath \<and> y = Inr tPath)
        \<and> (\<forall>q'. prefix q' tPath \<and> strict_prefix tPath q' \<longrightarrow>
              map_of fs q' \<noteq> None \<and> \<not> module_dir fs q')"
      by simp
    then show ?thesis by (rule exI)
  next
    case (Some n)
    show ?thesis
    proof (cases "module_dir fs tPath")
      case True
      with 1(2) Some have "y = Inr tPath"
        by (simp add: statIsDirectory_def module_dir_def)
      with True top have "prefix tPath tPath \<and>
          (map_of fs tPath = None \<and> y = Inl (stat_error fs [] tPath tPath) \<or> module_dir fs tPath \<and> y = Inr tPath)
          \<and> (\<forall>q'. prefix q' tPath \<and> strict_prefix tPath q' \<longrightarrow>
                map_of fs q' \<noteq> None \<and> \<not> module_dir fs q')"
        by simp
      then show ?thesis by (rule exI)
    next
      case False
      with 1(2) Some have "rec fs (dirname tPath) = Some y"
        by (simp add: statIsDirectory_def module_dir_def split: if_splits)
      from 1(1) [OF this] obtain q where
        q: "prefix q (dirname tPath)"
          "map_of fs q = None \<and> y = Inl (stat_error fs [] q q) \<or> module_dir fs q \<and> y = Inr q"
          "\<forall>q'. prefix q' (dirname tPath) \<and> strict_prefix q q' \<longrightarrow>
             map_of fs q' \<noteq> None \<and> \<not> module_dir fs q'"
        by (elim exE conjE)
      have p: "prefix q tPath"
        using q(1) by (rule prefix_dirnameD)
      have "\<forall>q'. prefix q' tPath \<and> strict_prefix q q' \<longrightarrow>
             map_of fs q' \<noteq> None \<and> \<not> module_dir fs q'"
      proof (intro allI impI)
        fix q' assume a: "prefix q' tPath \<and> strict_prefix q q'"
        show "map_of fs q' \<noteq> None \<and> \<not> module_dir fs q'"
        proof (cases "q' = tPath")
          case True
          with Some False show ?thesis by simp
        next
          case False
          with a have "prefix q' (dirname tPath)"
            by (intro prefix_dirnameI) simp_all
          with q(3) a show ?thesis by blast
        qed
      qed
      with p q(2) have "prefix q tPath \<and>
          (map_of fs q = None \<and> y = Inl (stat_error fs [] q q) \<or> module_dir fs q \<and> y = Inr q)
          \<and> (\<forall>q'. prefix q' tPath \<and> strict_prefix q q' \<longrightarrow>
                map_of fs q' \<noteq> None \<and> \<not> module_dir fs q')"
        by simp
      then show ?thesis by (rule exI)
    qed
  qed
qed

lemma nearest_returns:
  "\<exists>q. prefix q t \<and> (map_of fs q = None \<or> module_dir fs q) \<Longrightarrow>
   getNearestModuleDirectory fs t \<noteq> None"
proof (induction t rule: rev_induct)
  case Nil
  then have "map_of fs [] = None \<or> module_dir fs []" by simp
  then show ?case using nearest_missing nearest_found by fastforce
next
  case (snoc x xs)
  show ?case
  proof (cases "map_of fs (xs @ [x]) = None \<or> module_dir fs (xs @ [x])")
    case True
    then show ?thesis using nearest_missing nearest_found by fastforce
  next
    case False
    with snoc.prems obtain q where "prefix q xs" "map_of fs q = None \<or> module_dir fs q"
      by auto
    with snoc.IH have "getNearestModuleDirectory fs xs \<noteq> None" by blast
    moreover from False have "getNearestModuleDirectory fs (xs @ [x]) =
        getNearestModuleDirectory fs (dirname (xs @ [x]))"
      using nearest_step by auto
    ultimately show ?thesis by (simp add: dirname_def)
  qed
qed

text \<open>
  Claim C10, as amended. For a path that exists on disk together with all its ancestors,
  the search for the owning module returns if and only if some ancestor directory, the path
  included, holds a descriptor file, and it then returns the nearest such directory;
  otherwise it never returns, the parent of the filesystem root being the root again. For a
  path that does not exist the search ends at once with the error of \<^verbatim>\<open>statSync\<close>:
  \<^verbatim>\<open>ENOTDIR\<close> when, on the way from the root through directories, a regular file is
  reached before the end of the path, and \<^verbatim>\<open>ENOENT\<close> otherwise.
\<close>

theorem nearest_module_terminates_iff:
  assumes "\<forall>q. prefix q tPath \<longrightarrow> pathExists fs q"
  shows "(getNearestModuleDirectory fs tPath \<noteq> None
            \<longleftrightarrow> (\<exists>q. prefix q tPath \<and> module_dir fs q))
         \<and> (\<forall>y. getNearestModuleDirectory fs tPath = Some y \<longrightarrow>
               (\<exists>q. y = Inr q \<and> prefix q tPath \<and> module_dir fs q
                  \<and> (\<forall>q'. prefix q' tPath \<and> module_dir fs q' \<longrightarrow> prefix q' q)))
         \<and> dirname [] = []
         \<and> (\<forall>p. \<not> pathExists fs p \<longrightarrow>
               getNearestModuleDirectory fs p =
                 Some (Inl (if \<exists>q c. strict_prefix q p \<and> map_of fs q = Some (File c)
                                  \<and> (\<forall>r. strict_prefix r q \<longrightarrow> map_of fs r = Some Dir)
                            then ENOTDIR p else ENOENT p)))"
proof (intro conjI allI impI iffI)
  assume "getNearestModuleDirectory fs tPath \<noteq> None"
  then obtain y where "getNearestModuleDirectory fs tPath = Some y" by blast
  from nearest_returns_cause [OF this] assms
  show "\<exists>q. prefix q tPath \<and> module_dir fs q"
    by (auto simp: pathExists_def)
next
  assume "\<exists>q. prefix q tPath \<and> module_dir fs q"
  then show "getNearestModuleDirectory fs tPath \<noteq> None"
    using nearest_returns [of tPath fs] by blast
next
  fix y assume "getNearestModuleDirectory fs tPath = Some y"
  from nearest_returns_cause [OF this] assms obtain q where
    q: "prefix q tPath" "module_dir fs q" "y = Inr q"
      "\<forall>q'. prefix q' tPath \<and> strict_prefix q q' \<longrightarrow> \<not> module_dir fs q'"
    by (auto simp: pathExists_def)
  have "\<forall>q'. prefix q' tPath \<and> module_dir fs q' \<longrightarrow> prefix q' q"
  proof (intro allI impI)
    fix q' assume a: "prefix q' tPath \<and> module_dir fs q'"
    with q(1) have "prefix q q' \<or> prefix q' q" using prefix_same_cases by blast
    with a q(4) show "prefix q' q" by (auto simp: strict_prefix_def)
  qed
  with q show "\<exists>q. y = Inr q \<and> prefix q tPath \<and> module_dir fs q
      \<and> (\<forall>q'. prefix q' tPath \<and> module_dir fs q' \<longrightarrow> prefix q' q)"
    by blast
next
  show "dirname [] = []" by (simp add: dirname_def)
next
  fix p assume "\<not> pathExists fs p"
  then have "getNearestModuleDirectory fs p = Some (Inl (stat_error fs [] p p))"
    by (simp add: pathExists_def nearest_missing)
  moreover have "stat_error fs [] p p =
      (if \<exists>q c. strict_prefix q p \<and> map_of fs q = Some (File c)
            \<and> (\<forall>r. strict_prefix r q \<longrightarrow> map_of fs r = Some Dir)
       then ENOTDIR p else ENOENT p)"
    using stat_error_kind [of fs "[]" p p] stat_error_ENOTDIR_iff [of fs p] by auto
  ultimately show "getNearestModuleDirectory fs p =
      Some (Inl (if \<exists>q c. strict_prefix q p \<and> map_of fs q = Some (File c)
                      \<and> (\<forall>r. strict_prefix r q \<longrightarrow> map_of fs r = Some Dir)
                 then ENOTDIR p else ENOENT p))"
    by simp
qed

text \<open>
  Under the regular file \<^verbatim>\<open>/proj/package.json\<close> the error is \<^verbatim>\<open>ENOTDIR\<close>.
\<close>

lemma nearest_under_file:
  "getNearestModuleDirectory (scenario_install [''b'']) [''proj'', ''package.json'', ''x'']
     = Some (Inl (ENOTDIR [''proj'', ''package.json'', ''x'']))"
  by (simp add: getNearestModuleDirectory.simps statIsDirectory_def scenario_install_def)

text \<open>
  For a path that does not exist the search ends at once, with the error of
  \<^verbatim>\<open>statSync\<close>, although no directory on the way up holds a descriptor file.
\<close>

theorem nearest_missing_path_counterexample:
  "getNearestModuleDirectory [([], Dir)] [''x''] = Some (Inl (ENOENT [''x'']))
   \<and> \<not> module_dir [([], Dir)] [] \<and> \<not> module_dir [([], Dir)] [''x'']"
  by (simp add: nearest_missing module_dir_def pathExists_def)

theorem nearest_module_terminates_iff_witness:
  "pathExists [([], Dir), ([''tmp''], Dir)] []
   \<and> pathExists [([], Dir), ([''tmp''], Dir)] [''tmp'']
   \<and> getNearestModuleDirectory [([], Dir), ([''tmp''], Dir)] [''tmp''] = None"
proof -
  have a: "\<forall>q. prefix q [''tmp''] \<longrightarrow> pathExists [([], Dir), ([''tmp''], Dir)] q"
    by (auto simp: prefix_Cons pathExists_def)
  have "\<not> (\<exists>q. prefix q [''tmp''] \<and> module_dir [([], Dir), ([''tmp''], Dir)] q)"
    by (auto simp: prefix_Cons module_dir_def pathExists_def)
  with nearest_module_terminates_iff [OF a] show ?thesis
    by (simp add: pathExists_def)
qed

subsection \<open>The predicate and the filesystem\<close>

lemma nearest_root_loops:
  "map_of fs [] \<noteq> None \<Longrightarrow> \<not> module_dir fs [] \<Longrightarrow> getNearestModuleDirectory fs [] = None"
proof (rule ccontr)
  assume a: "map_of fs [] \<noteq> None" "\<not> module_dir fs []"
    and "getNearestModuleDirectory fs [] \<noteq> None"
  then obtain y where "getNearestModuleDirectory fs [] = Some y" by blast
  from nearest_returns_cause [OF this] a show False by auto
qed

lemma same_ancestors_here:
  assumes "same_ancestors fs fs' t"
  shows "pathExists fs t = pathExists fs' t" and "module_dir fs t = module_dir fs' t"
    and "stat_error fs [] t t = stat_error fs' [] t t"
proof -
  from assms show "pathExists fs t = pathExists fs' t"
    by (simp add: same_ancestors_def)
  from assms show "module_dir fs t = module_dir fs' t"
    by (simp add: same_ancestors_def module_dir_def)
  from assms have "\<forall>q. prefix q ([] @ t) \<longrightarrow>
      pathExists fs q = pathExists fs' q
      \<and> (map_of fs q = Some Dir) = (map_of fs' q = Some Dir)"
    by (simp add: same_ancestors_def)
  then show "stat_error fs [] t t = stat_error fs' [] t t"
    by (rule stat_error_same)
qed

lemma nearest_same_ancestors:
  "same_ancestors fs fs' t \<Longrightarrow> getNearestModuleDirectory fs t = getNearestModuleDirectory fs' t"
proof (induction t rule: rev_induct)
  case Nil
  note e = same_ancestors_here [OF Nil]
  consider "map_of fs [] = None" | "module_dir fs []"
    | "map_of fs [] \<noteq> None" "\<not> module_dir fs []" by blast
  then show ?case
  proof cases
    case 1
    with e(1) have "map_of fs' [] = None" by (simp add: pathExists_def)
    with 1 e(3) show ?thesis by (simp add: nearest_missing)
  next
    case 2
    with e(2) show ?thesis by (simp add: nearest_found)
  next
    case 3
    with e have "map_of fs' [] \<noteq> None" "\<not> module_dir fs' []" by (simp_all add: pathExists_def)
    with 3 show ?thesis by (simp add: nearest_root_loops)
  qed
next
  case (snoc x xs)
  let ?t = "xs @ [x]"
  note e = same_ancestors_here [OF snoc.prems]
  from snoc.prems have "same_ancestors fs fs' xs"
    by (simp add: same_ancestors_def)
  with snoc.IH have ih: "getNearestModuleDirectory fs xs = getNearestModuleDirectory fs' xs" .
  consider "map_of fs ?t = None" | "module_dir fs ?t"
    | "map_of fs ?t \<noteq> None" "\<not> module_dir fs ?t" by blast
  then show ?case
  proof cases
    case 1
    with e(1) have "map_of fs' ?t = None" by (simp add: pathExists_def)
    with 1 e(3) show ?thesis by (simp add: nearest_missing)
  next
    case 2
    with e(2) show ?thesis by (simp add: nearest_found)
  next
    case 3
    with e have 4: "map_of fs' ?t \<noteq> None" "\<not> module_dir fs' ?t" by (simp_all add: pathExists_def)
    from 3 have "getNearestModuleDirectory fs ?t = getNearestModuleDirectory fs (dirname ?t)"
      using nearest_step by auto
    moreover from 4 have "getNearestModuleDirectory fs' ?t = getNearestModuleDirectory fs' (dirname ?t)"
      using nearest_step by auto
    ultimately show ?thesis using ih by (simp add: dirname_def)
  qed
qed

text \<open>
  Claim C9, as amended. The returned predicate reads the filesystem at the time of each
  call and returns no new filesystem: its result is determined by the captured set, the
  captured \<^verbatim>\<open>node_modules\<close> path, the queried path and, of the filesystem, by which
  ancestors of the queried path exist, which of them are directories and which of them
  hold a descriptor file.
\<close>

theorem ignore_function_frame:
  assumes "same_ancestors fs fs' tPath"
  shows "ignoreFunction prodPaths' nmPath fs tPath = ignoreFunction prodPaths' nmPath fs' tPath"
  using nearest_same_ancestors [OF assms] by (simp add: ignoreFunction_def)

lemma scenario_ignore:
  "getFsCopyIgnoreFunction (scenario_install [''b'']) [''proj''] =
     Some (Inr (ignoreFunction [[''proj''], [''proj'', ''node_modules'', ''a'']]
                  [''proj'', ''node_modules'']))"
  using scenario_install_run by (simp add: getFsCopyIgnoreFunction_def)

text \<open>
  The same predicate, asked about the same path, answers differently once the descriptor
  file of \<open>b\<close> is deleted.
\<close>

theorem ignore_function_counterexample:
  "getFsCopyIgnoreFunction (scenario_install [''b'']) [''proj''] =
     Some (Inr (ignoreFunction [[''proj''], [''proj'', ''node_modules'', ''a'']]
                  [''proj'', ''node_modules'']))
   \<and> ignoreFunction [[''proj''], [''proj'', ''node_modules'', ''a'']] [''proj'', ''node_modules'']
        (scenario_install [''b'']) [''proj'', ''node_modules'', ''b''] = Some (Inr True)
   \<and> ignoreFunction [[''proj''], [''proj'', ''node_modules'', ''a'']] [''proj'', ''node_modules'']
        (remove (scenario_install [''b'']) [''proj'', ''node_modules'', ''b'', ''package.json''])
        [''proj'', ''node_modules'', ''b''] = Some (Inr False)"
  using scenario_ignore
  by (simp add: ignoreFunction_def getNearestModuleDirectory.simps statIsDirectory_def
      pathExists_def dirname_def scenario_install_def remove_def path_string_def)

theorem ignore_function_frame_witness:
  "same_ancestors (scenario_install [''b''])
     (remove (scenario_install [''b'']) [''proj'', ''node_modules'', ''b''])
     [''proj'', ''node_modules'', ''a'']
   \<and> ignoreFunction [[''proj''], [''proj'', ''node_modules'', ''a'']] [''proj'', ''node_modules'']
        (scenario_install [''b'']) [''proj'', ''node_modules'', ''a'']
     = ignoreFunction [[''proj''], [''proj'', ''node_modules'', ''a'']] [''proj'', ''node_modules'']
        (remove (scenario_install [''b'']) [''proj'', ''node_modules'', ''b''])
        [''proj'', ''node_modules'', ''a'']"
proof -
  have a: "same_ancestors (scenario_install [''b''])
     (remove (scenario_install [''b'']) [''proj'', ''node_modules'', ''b''])
     [''proj'', ''node_modules'', ''a'']"
    by (auto simp: same_ancestors_def prefix_Cons module_dir_def pathExists_def
        scenario_install_def remove_def)
  from ignore_function_frame [OF a] a show ?thesis by simp
qed

text \<open>
  Claim C8 fails on the code. The path \<^verbatim>\<open>/proj/node_modules_old/dep\<close> lies outside
  \<^verbatim>\<open>/proj/node_modules\<close>, but its text starts with the text \<^verbatim>\<open>/proj/node_modules\<close>, and
  the predicate answers "skip".
\<close>

theorem ignore_sibling_directory:
  "getFsCopyIgnoreFunction shadow_install [''proj''] =
     Some (Inr (ignoreFunction [[''proj'']] [''proj'', ''node_modules'']))
   \<and> ignoreFunction [[''proj'']] [''proj'', ''node_modules''] shadow_install
        [''proj'', ''node_modules_old'', ''dep''] = Some (Inr True)
   \<and> \<not> prefix [''proj'', ''node_modules''] [''proj'', ''node_modules_old'', ''dep'']"
proof -
  have "loadProductionDependencies shadow_install [''proj''] =
      Some (Inr \<lparr>prodPaths = [[''proj'']], loaded = [[''proj'']]\<rparr>)"
    by code_simp
  then show ?thesis
    by (simp add: getFsCopyIgnoreFunction_def ignoreFunction_def getNearestModuleDirectory.simps
        statIsDirectory_def pathExists_def dirname_def shadow_install_def path_string_def)
qed

text \<open>
  What the predicate does answer: "do not skip" when the text of the path does not start
  with the text of \<^verbatim>\<open>nmPath\<close>, and, inside the subtree, "skip" exactly when the owning
  module is no member.
\<close>

lemma path_string_prefix: "prefix nm t \<Longrightarrow> prefix (path_string nm) (path_string t)"
proof (cases "nm = []")
  case True
  then show ?thesis by (cases t) (simp_all add: path_string_def)
next
  case False
  assume "prefix nm t"
  then obtain zs where "t = nm @ zs" by (auto simp: prefix_def)
  with False show ?thesis by (simp add: path_string_def)
qed

lemma ignore_function_result:
  assumes "getNearestModuleDirectory fs tPath = Some (Inr dirPath)"
  shows "(\<not> prefix (path_string nmPath) (path_string tPath) \<longrightarrow>
            ignoreFunction prodPaths' nmPath fs tPath = Some (Inr False))
         \<and> (prefix nmPath tPath \<longrightarrow>
            ignoreFunction prodPaths' nmPath fs tPath = Some (Inr (dirPath \<notin> set prodPaths')))"
  using assms path_string_prefix [of nmPath tPath] by (simp add: ignoreFunction_def)

section \<open>The pruner removes the candidates that are no members\<close>

lemma is_chunk_cases:
  "is_chunk c \<longleftrightarrow> (\<exists>x. c = [''node_modules'', x] \<and> \<not> prefix ''@'' x)
     \<or> (\<exists>s x. c = [''node_modules'', s, x] \<and> prefix ''@'' s)"
  by (auto simp: is_chunk_def split: list.splits)

lemma prune_induct [case_names Zero Module Nil Cons ScopedNil ScopedCons]:
  fixes P :: "nat \<Rightarrow> walker \<Rightarrow> fs \<Rightarrow> path \<Rightarrow> bool"
    and Q :: "nat \<Rightarrow> walker \<Rightarrow> path \<Rightarrow> string list \<Rightarrow> fs \<Rightarrow> bool"
    and R :: "nat \<Rightarrow> walker \<Rightarrow> path \<Rightarrow> string list \<Rightarrow> fs \<Rightarrow> bool"
  assumes "\<And>w fs p. P 0 w fs p"
    and "\<And>n w fs p.
          (\<And>names. p \<in> set (prodPaths w) \<Longrightarrow> pathExists fs (p @ [''node_modules'']) \<Longrightarrow>
             readdir fs (p @ [''node_modules'']) = Inr names \<Longrightarrow>
             Q n w (p @ [''node_modules'']) names fs) \<Longrightarrow>
          P (Suc n) w fs p"
    and "\<And>n w nmp fs. Q n w nmp [] fs"
    and "\<And>n w nmp x rest fs.
          (\<not> prefix ''@'' x \<Longrightarrow> P n w fs (nmp @ [x])) \<Longrightarrow>
          (\<And>subs. prefix ''@'' x \<Longrightarrow> readdir fs (nmp @ [x]) = Inr subs \<Longrightarrow>
             R n w (nmp @ [x]) subs fs) \<Longrightarrow>
          (\<And>fs1. \<not> prefix ''@'' x \<Longrightarrow> pruneModule n w fs (nmp @ [x]) = Some (Inr fs1) \<Longrightarrow>
             Q n w nmp rest fs1) \<Longrightarrow>
          (\<And>subs fs1. prefix ''@'' x \<Longrightarrow> readdir fs (nmp @ [x]) = Inr subs \<Longrightarrow>
             pruneSubScopedModules n w (nmp @ [x]) subs fs = Some (Inr fs1) \<Longrightarrow>
             Q n w nmp rest fs1) \<Longrightarrow>
          Q n w nmp (x # rest) fs"
    and "\<And>n w sp fs. R n w sp [] fs"
    and "\<And>n w sp y rest fs.
          P n w fs (sp @ [y]) \<Longrightarrow>
          (\<And>fs1. pruneModule n w fs (sp @ [y]) = Some (Inr fs1) \<Longrightarrow> R n w sp rest fs1) \<Longrightarrow>
          R n w sp (y # rest) fs"
  shows "P n w fs p" and "Q n w nmp names fs" and "R n w sp subs fs"
proof (induction n w fs p and n w nmp names fs and n w sp subs fs
    rule: pruneModule_pruneSubModules_pruneSubScopedModules.induct)
  case (1 w fs modulePath)
  show ?case by (rule assms(1))
next
  case (2 n w fs modulePath)
  show ?case by (rule assms(2)) (use 2 in auto)
next
  case (3 n w nodeModulesPath fs)
  show ?case by (rule assms(3))
next
  case (4 n w nodeModulesPath subModuleName rest fs)
  show ?case
  proof (rule assms(4))
    show "\<not> prefix ''@'' subModuleName \<Longrightarrow> P n w fs (nodeModulesPath @ [subModuleName])"
      using 4(2) by simp
    show "\<And>subs. prefix ''@'' subModuleName \<Longrightarrow>
        readdir fs (nodeModulesPath @ [subModuleName]) = Inr subs \<Longrightarrow>
        R n w (nodeModulesPath @ [subModuleName]) subs fs"
      using 4(1) by simp
    show "\<And>fs1. \<not> prefix ''@'' subModuleName \<Longrightarrow>
        pruneModule n w fs (nodeModulesPath @ [subModuleName]) = Some (Inr fs1) \<Longrightarrow>
        Q n w nodeModulesPath rest fs1"
      using 4(3) by simp
    show "\<And>subs fs1. prefix ''@'' subModuleName \<Longrightarrow>
        readdir fs (nodeModulesPath @ [subModuleName]) = Inr subs \<Longrightarrow>
        pruneSubScopedModules n w (nodeModulesPath @ [subModuleName]) subs fs = Some (Inr fs1) \<Longrightarrow>
        Q n w nodeModulesPath rest fs1"
      using 4(3) by simp
  qed
next
  case (5 n w scopePath fs)
  show ?case by (rule assms(5))
next
  case (6 n w scopePath subScopedModuleName rest fs)
  show ?case by (rule assms(6)) (use 6 in auto)
qed

subsection \<open>Filtering the table\<close>

lemma pathExists_iff: "pathExists fs p \<longleftrightarrow> p \<in> fst ` set fs"
  by (simp add: pathExists_def map_of_eq_None_iff)

lemma map_of_without: "map_of (without U fs) p = (if U p then None else map_of fs p)"
  by (induction fs) (auto simp: without_def)

lemma pathExists_without: "pathExists (without U fs) p \<longleftrightarrow> \<not> U p \<and> pathExists fs p"
  by (simp add: pathExists_def map_of_without)

lemma without_without: "without V (without U fs) = without (\<lambda>q. U q \<or> V q) fs"
  by (simp add: without_def conj_commute)

lemma without_cong:
  "(\<And>q. pathExists fs q \<Longrightarrow> U q = V q) \<Longrightarrow> without U fs = without V fs"
  unfolding without_def pathExists_iff by (rule filter_cong) auto

lemma without_none: "(\<And>q. pathExists fs q \<Longrightarrow> \<not> U q) \<Longrightarrow> without U fs = fs"
  unfolding without_def pathExists_iff by (induction fs) auto

lemma remove_without: "remove fs p = without (prefix p) fs"
  by (simp add: remove_def without_def)

lemma wf_fs_parent:
  "wf_fs fs \<Longrightarrow> pathExists fs (xs @ [x]) \<Longrightarrow> map_of fs xs = Some Dir"
  unfolding wf_fs_def pathExists_iff by force

lemma wf_fs_prefix:
  "wf_fs fs \<Longrightarrow> pathExists fs q \<Longrightarrow> prefix r q \<Longrightarrow> pathExists fs r"
proof (induction q rule: rev_induct)
  case Nil
  then show ?case by simp
next
  case (snoc x xs)
  from snoc.prems(1,2) have "map_of fs xs = Some Dir" by (rule wf_fs_parent)
  then have "pathExists fs xs" by (simp add: pathExists_def)
  with snoc show ?case by auto
qed

lemma wf_fs_without:
  assumes "wf_fs fs" and up: "\<And>r q. U r \<Longrightarrow> prefix r q \<Longrightarrow> U q"
  shows "wf_fs (without U fs)"
  unfolding wf_fs_def
proof (intro ballI impI)
  fix e assume e: "e \<in> set (without U fs)" and ne: "fst e \<noteq> []"
  from e have "e \<in> set fs" "\<not> U (fst e)" by (auto simp: without_def)
  with assms(1) ne have "map_of fs (butlast (fst e)) = Some Dir" by (auto simp: wf_fs_def)
  moreover have "\<not> U (butlast (fst e))"
    using up [of "butlast (fst e)" "fst e"] \<open>\<not> U (fst e)\<close> prefixeq_butlast by blast
  ultimately show "map_of (without U fs) (butlast (fst e)) = Some Dir"
    by (simp add: map_of_without)
qed

lemma readdir_iff:
  "readdir fs d = Inr names \<Longrightarrow> x \<in> set names \<longleftrightarrow> pathExists fs (d @ [x])"
proof -
  assume "readdir fs d = Inr names"
  then have n: "names = remdups (map (\<lambda>e. last (fst e))
      (filter (\<lambda>e. fst e \<noteq> [] \<and> butlast (fst e) = d) fs))"
    by (auto simp: readdir_def split: option.splits node.splits)
  have "x \<in> set names \<longleftrightarrow> (\<exists>e \<in> set fs. fst e \<noteq> [] \<and> butlast (fst e) = d \<and> last (fst e) = x)"
    unfolding n by auto
  also have "\<dots> \<longleftrightarrow> (\<exists>e \<in> set fs. fst e = d @ [x])"
    by (metis append_butlast_last_id butlast_snoc last_snoc snoc_eq_iff_butlast)
  also have "\<dots> \<longleftrightarrow> pathExists fs (d @ [x])"
    unfolding pathExists_iff by force
  finally show ?thesis .
qed

subsection \<open>The candidates of the walk\<close>

lemma visited_prefix: "visited S a t \<Longrightarrow> prefix a t"
  by (induction rule: visited.induct) (auto dest: append_prefixD)

lemma doomed_prefix: "doomed S a q \<Longrightarrow> prefix a q"
  unfolding doomed_def using visited_prefix prefix_order.trans by blast

lemma doomed_up: "doomed S a r \<Longrightarrow> prefix r q \<Longrightarrow> doomed S a q"
  unfolding doomed_def using prefix_order.trans by blast

lemma doomed_nonmember: "a \<notin> S \<Longrightarrow> doomed S a q \<longleftrightarrow> prefix a q"
proof
  assume a: "a \<notin> S" and "doomed S a q"
  then obtain t where t: "visited S a t" "prefix t q" by (auto simp: doomed_def)
  from t(1) a have "t = a" by (cases rule: visited.cases) auto
  with t show "prefix a q" by simp
next
  assume "a \<notin> S" "prefix a q"
  then show "doomed S a q" unfolding doomed_def using visited.here by blast
qed

lemma doomed_member:
  assumes "a \<in> S"
  shows "doomed S a q \<longleftrightarrow> (\<exists>x. doomed_entry S (a @ [''node_modules'']) x q)"
proof
  assume "doomed S a q"
  then obtain t where t: "visited S a t" "t \<notin> S" "prefix t q" by (auto simp: doomed_def)
  from t(1) show "\<exists>x. doomed_entry S (a @ [''node_modules'']) x q"
  proof (cases rule: visited.cases)
    case here
    with t assms show ?thesis by simp
  next
    case (down c)
    from down(3) t have d: "doomed S (a @ c) q" by (auto simp: doomed_def)
    from down(2) consider x where "c = [''node_modules'', x]" "\<not> prefix ''@'' x"
      | s x where "c = [''node_modules'', s, x]" "prefix ''@'' s"
      unfolding is_chunk_cases by blast
    then show ?thesis
    proof cases
      case 1
      with d have "doomed_entry S (a @ [''node_modules'']) x q" by (simp add: doomed_entry_def)
      then show ?thesis ..
    next
      case 2
      with d have "doomed_entry S (a @ [''node_modules'']) s q" by (auto simp: doomed_entry_def)
      then show ?thesis ..
    qed
  qed
next
  assume "\<exists>x. doomed_entry S (a @ [''node_modules'']) x q"
  then obtain x where x: "doomed_entry S (a @ [''node_modules'']) x q" ..
  show "doomed S a q"
  proof (cases "prefix ''@'' x")
    case True
    with x obtain y t where t: "visited S (a @ [''node_modules'', x, y]) t" "t \<notin> S" "prefix t q"
      by (auto simp: doomed_entry_def doomed_def)
    have "is_chunk [''node_modules'', x, y]" using True by (simp add: is_chunk_def)
    from assms this have "visited S a t" by (rule visited.down) (use t(1) in simp)
    with t show ?thesis by (auto simp: doomed_def)
  next
    case False
    with x obtain t where t: "visited S (a @ [''node_modules'', x]) t" "t \<notin> S" "prefix t q"
      by (auto simp: doomed_entry_def doomed_def)
    have "is_chunk [''node_modules'', x]" using False by (simp add: is_chunk_def)
    from assms this have "visited S a t" by (rule visited.down) (use t(1) in simp)
    with t show ?thesis by (auto simp: doomed_def)
  qed
qed

lemma doomed_entry_prefix:
  assumes "doomed_entry S nmp x q"
  shows "prefix (nmp @ [x]) q"
proof (cases "prefix ''@'' x")
  case True
  with assms obtain y where "doomed S (nmp @ [x, y]) q" by (auto simp: doomed_entry_def)
  then have "prefix ((nmp @ [x]) @ [y]) q" using doomed_prefix by fastforce
  then show ?thesis by (rule append_prefixD)
next
  case False
  with assms show ?thesis by (simp add: doomed_entry_def doomed_prefix)
qed

lemma doomed_entry_up: "doomed_entry S nmp x r \<Longrightarrow> prefix r q \<Longrightarrow> doomed_entry S nmp x q"
  unfolding doomed_entry_def using doomed_up by (cases "prefix ''@'' x") (simp_all, blast)

subsection \<open>The results of one call of the pruner, by cases\<close>

lemma pruneModule_Suc_Inr:
  "pruneModule (Suc n) w fs p = Some (Inr fs') \<longleftrightarrow>
     (p \<notin> set (prodPaths w) \<and> fs' = remove fs p) \<or>
     (p \<in> set (prodPaths w) \<and>
        (\<not> pathExists fs (p @ [''node_modules'']) \<and> fs' = fs \<or>
         pathExists fs (p @ [''node_modules'']) \<and>
           (\<exists>names. readdir fs (p @ [''node_modules'']) = Inr names \<and>
              pruneSubModules n w (p @ [''node_modules'']) names fs = Some (Inr fs'))))"
  by (cases "readdir fs (p @ [''node_modules''])") (auto simp: Let_def)

lemma pruneSubModules_Cons_Inr:
  "pruneSubModules n w nmp (x # rest) fs = Some (Inr fs') \<longleftrightarrow>
     (\<not> prefix ''@'' x \<and>
        (\<exists>fs1. pruneModule n w fs (nmp @ [x]) = Some (Inr fs1) \<and>
           pruneSubModules n w nmp rest fs1 = Some (Inr fs'))) \<or>
     (prefix ''@'' x \<and>
        (\<exists>subs fs1. readdir fs (nmp @ [x]) = Inr subs \<and>
           pruneSubScopedModules n w (nmp @ [x]) subs fs = Some (Inr fs1) \<and>
           pruneSubModules n w nmp rest fs1 = Some (Inr fs')))"
  by (cases "readdir fs (nmp @ [x])") (auto split: option.splits sum.splits)

lemma pruneSubScopedModules_Cons_Inr:
  "pruneSubScopedModules n w sp (y # rest) fs = Some (Inr fs') \<longleftrightarrow>
     (\<exists>fs1. pruneModule n w fs (sp @ [y]) = Some (Inr fs1) \<and>
        pruneSubScopedModules n w sp rest fs1 = Some (Inr fs'))"
  by (auto split: option.splits sum.splits)

subsection \<open>What the pruner leaves\<close>

lemma doomed_entries_read:
  assumes "wf_fs fs" "readdir fs nmp = Inr names"
  shows "without (\<lambda>q. \<exists>x\<in>set names. doomed_entry S nmp x q) fs
       = without (\<lambda>q. \<exists>x. doomed_entry S nmp x q) fs"
proof (rule without_cong)
  fix q assume q: "pathExists fs q"
  show "(\<exists>x\<in>set names. doomed_entry S nmp x q) = (\<exists>x. doomed_entry S nmp x q)"
  proof
    assume "\<exists>x. doomed_entry S nmp x q"
    then obtain x where x: "doomed_entry S nmp x q" ..
    then have "prefix (nmp @ [x]) q" by (rule doomed_entry_prefix)
    with assms(1) q have "pathExists fs (nmp @ [x])" by (rule wf_fs_prefix)
    with assms(2) have "x \<in> set names" by (simp add: readdir_iff)
    with x show "\<exists>x\<in>set names. doomed_entry S nmp x q" ..
  qed blast
qed

lemma doomed_scoped_read:
  assumes "wf_fs fs" "readdir fs sp = Inr subs"
  shows "without (\<lambda>q. \<exists>y\<in>set subs. doomed S (sp @ [y]) q) fs
       = without (\<lambda>q. \<exists>y. doomed S (sp @ [y]) q) fs"
proof (rule without_cong)
  fix q assume q: "pathExists fs q"
  show "(\<exists>y\<in>set subs. doomed S (sp @ [y]) q) = (\<exists>y. doomed S (sp @ [y]) q)"
  proof
    assume "\<exists>y. doomed S (sp @ [y]) q"
    then obtain y where y: "doomed S (sp @ [y]) q" ..
    then have "prefix (sp @ [y]) q" by (rule doomed_prefix)
    with assms(1) q have "pathExists fs (sp @ [y])" by (rule wf_fs_prefix)
    with assms(2) have "y \<in> set subs" by (simp add: readdir_iff)
    with y show "\<exists>y\<in>set subs. doomed S (sp @ [y]) q" ..
  qed blast
qed

lemma prune_result:
  "wf_fs fs \<longrightarrow> (\<forall>fs'. pruneModule n w fs p = Some (Inr fs') \<longrightarrow>
      fs' = without (doomed (set (prodPaths w)) p) fs)"
  "wf_fs fs \<longrightarrow> (\<forall>fs'. pruneSubModules n w nmp names fs = Some (Inr fs') \<longrightarrow>
      fs' = without (\<lambda>q. \<exists>x\<in>set names. doomed_entry (set (prodPaths w)) nmp x q) fs)"
  "wf_fs fs \<longrightarrow> (\<forall>fs'. pruneSubScopedModules n w sp subs fs = Some (Inr fs') \<longrightarrow>
      fs' = without (\<lambda>q. \<exists>y\<in>set subs. doomed (set (prodPaths w)) (sp @ [y]) q) fs)"
proof (induction n w fs p and n w nmp names fs and n w sp subs fs rule: prune_induct)
  case (Zero w fs p)
  show ?case by simp
next
  case (Module n w fs p)
  let ?S = "set (prodPaths w)"
  let ?nmp = "p @ [''node_modules'']"
  show ?case
  proof (intro impI allI)
    fix fs' assume wf: "wf_fs fs" and r: "pruneModule (Suc n) w fs p = Some (Inr fs')"
    from r consider "p \<notin> ?S" "fs' = remove fs p"
      | "p \<in> ?S" "\<not> pathExists fs ?nmp" "fs' = fs"
      | names where "p \<in> ?S" "pathExists fs ?nmp" "readdir fs ?nmp = Inr names"
          "pruneSubModules n w ?nmp names fs = Some (Inr fs')"
      unfolding pruneModule_Suc_Inr by (elim disjE conjE exE) blast+
    then show "fs' = without (doomed ?S p) fs"
    proof cases
      case 1
      have "without (prefix p) fs = without (doomed ?S p) fs"
        by (rule without_cong) (simp add: doomed_nonmember [OF 1(1)])
      with 1(2) show ?thesis by (simp add: remove_without)
    next
      case 2
      have "without (doomed ?S p) fs = fs"
      proof (rule without_none)
        fix q assume q: "pathExists fs q"
        show "\<not> doomed ?S p q"
        proof
          assume "doomed ?S p q"
          with 2(1) obtain x where "doomed_entry ?S ?nmp x q" by (auto simp: doomed_member)
          then have "prefix (?nmp @ [x]) q" by (rule doomed_entry_prefix)
          then have "prefix ?nmp q" by (rule append_prefixD)
          with wf q have "pathExists fs ?nmp" by (rule wf_fs_prefix)
          with 2(2) show False by simp
        qed
      qed
      with 2(3) show ?thesis by simp
    next
      case 3
      from Module [OF 3(1,2,3)] wf 3(4)
      have "fs' = without (\<lambda>q. \<exists>x\<in>set names. doomed_entry ?S ?nmp x q) fs" by blast
      also have "\<dots> = without (\<lambda>q. \<exists>x. doomed_entry ?S ?nmp x q) fs"
        using wf 3(3) by (rule doomed_entries_read)
      also have "\<dots> = without (doomed ?S p) fs"
        by (rule without_cong) (simp add: doomed_member [OF 3(1)])
      finally show ?thesis .
    qed
  qed
next
  case (Nil n w nmp fs)
  show ?case by (simp add: without_def)
next
  case (Cons n w nmp x rest fs)
  let ?S = "set (prodPaths w)"
  show ?case
  proof (intro impI allI)
    fix fs' assume wf: "wf_fs fs" and r: "pruneSubModules n w nmp (x # rest) fs = Some (Inr fs')"
    from r consider fs1 where "\<not> prefix ''@'' x" "pruneModule n w fs (nmp @ [x]) = Some (Inr fs1)"
        "pruneSubModules n w nmp rest fs1 = Some (Inr fs')"
      | subs fs1 where "prefix ''@'' x" "readdir fs (nmp @ [x]) = Inr subs"
        "pruneSubScopedModules n w (nmp @ [x]) subs fs = Some (Inr fs1)"
        "pruneSubModules n w nmp rest fs1 = Some (Inr fs')"
      unfolding pruneSubModules_Cons_Inr by (elim disjE conjE exE) blast+
    then have "\<exists>fs1. fs1 = without (doomed_entry ?S nmp x) fs \<and> wf_fs fs1 \<and>
        fs' = without (\<lambda>q. \<exists>x\<in>set rest. doomed_entry ?S nmp x q) fs1"
    proof cases
      case 1
      from Cons(1) [OF 1(1)] wf 1(2) have "fs1 = without (doomed ?S (nmp @ [x])) fs" by blast
      moreover have "without (doomed ?S (nmp @ [x])) fs = without (doomed_entry ?S nmp x) fs"
        by (rule without_cong) (simp add: doomed_entry_def 1(1))
      ultimately have a: "fs1 = without (doomed_entry ?S nmp x) fs" by simp
      then have b: "wf_fs fs1" using wf doomed_entry_up by (auto intro: wf_fs_without)
      with Cons(3) [OF 1(1,2)] 1(3) a show ?thesis by blast
    next
      case 2
      from Cons(2) [OF 2(1,2)] wf 2(3)
      have "fs1 = without (\<lambda>q. \<exists>y\<in>set subs. doomed ?S ((nmp @ [x]) @ [y]) q) fs" by blast
      also have "\<dots> = without (\<lambda>q. \<exists>y. doomed ?S ((nmp @ [x]) @ [y]) q) fs"
        using wf 2(2) by (rule doomed_scoped_read)
      also have "\<dots> = without (doomed_entry ?S nmp x) fs"
        by (rule without_cong) (simp add: doomed_entry_def 2(1))
      finally have a: "fs1 = without (doomed_entry ?S nmp x) fs" .
      then have b: "wf_fs fs1" using wf doomed_entry_up by (auto intro: wf_fs_without)
      with Cons(4) [OF 2(1,2,3)] 2(4) a show ?thesis by blast
    qed
    then show "fs' = without (\<lambda>q. \<exists>x\<in>set (x # rest). doomed_entry ?S nmp x q) fs"
      by (auto simp: without_without)
  qed
next
  case (ScopedNil n w sp fs)
  show ?case by (simp add: without_def)
next
  case (ScopedCons n w sp y rest fs)
  let ?S = "set (prodPaths w)"
  show ?case
  proof (intro impI allI)
    fix fs' assume wf: "wf_fs fs"
      and r: "pruneSubScopedModules n w sp (y # rest) fs = Some (Inr fs')"
    from r obtain fs1 where 1: "pruneModule n w fs (sp @ [y]) = Some (Inr fs1)"
        "pruneSubScopedModules n w sp rest fs1 = Some (Inr fs')"
      unfolding pruneSubScopedModules_Cons_Inr by blast
    from ScopedCons(1) wf 1(1) have a: "fs1 = without (doomed ?S (sp @ [y])) fs" by blast
    then have b: "wf_fs fs1" using wf doomed_up by (auto intro: wf_fs_without)
    with ScopedCons(2) [OF 1(1)] 1(2)
    have "fs' = without (\<lambda>q. \<exists>y\<in>set rest. doomed ?S (sp @ [y]) q) fs1" by blast
    with a show "fs' = without (\<lambda>q. \<exists>y\<in>set (y # rest). doomed ?S (sp @ [y]) q) fs"
      by (auto simp: without_without)
  qed
qed

subsection \<open>Each candidate is reached in one way\<close>

lemma below_prefix: "below a p \<Longrightarrow> prefix a p"
  by (induction rule: below.induct) (auto dest: append_prefixD)

lemma below_visited_or_doomed: "below a p \<Longrightarrow> visited S a p \<or> doomed S a p"
proof (induction rule: below.induct)
  case (child c a)
  show ?case
  proof (cases "a \<in> S")
    case True
    from True child visited.here [of S "a @ c"] have "visited S a (a @ c)"
      by (rule visited.down)
    then show ?thesis ..
  next
    case False
    then show ?thesis by (simp add: doomed_nonmember)
  qed
next
  case (deeper c a p)
  show ?case
  proof (cases "a \<in> S")
    case True
    from deeper.IH show ?thesis
    proof
      assume "visited S (a @ c) p"
      with True deeper.hyps(1) have "visited S a p" by (rule visited.down)
      then show ?thesis ..
    next
      assume "doomed S (a @ c) p"
      then obtain t where t: "visited S (a @ c) t" "t \<notin> S" "prefix t p"
        by (auto simp: doomed_def)
      from True deeper.hyps(1) t(1) have "visited S a t" by (rule visited.down)
      with t show ?thesis by (auto simp: doomed_def)
    qed
  next
    case False
    moreover from deeper.hyps have "prefix a p"
      using below_prefix append_prefixD by blast
    ultimately show ?thesis by (simp add: doomed_nonmember)
  qed
qed

lemma below_nonmember_doomed: "below a p \<Longrightarrow> p \<notin> S \<Longrightarrow> doomed S a p"
  using below_visited_or_doomed [of a p S] by (auto simp: doomed_def)

lemma is_chunk_prefix_free:
  assumes "is_chunk c" "is_chunk c'" "prefix (c @ r) (c' @ r')"
  shows "c = c'"
  using assms unfolding is_chunk_cases by (elim disjE exE conjE) auto

lemma is_chunk_nonempty: "is_chunk c \<Longrightarrow> c \<noteq> []"
  by (auto simp: is_chunk_cases)

lemma visited_unique:
  "visited S a t \<Longrightarrow> visited S a p \<Longrightarrow> prefix t p \<Longrightarrow> t = p \<or> t \<in> S"
proof (induction arbitrary: p rule: visited.induct)
  case (here a)
  from here(1) show ?case by (cases rule: visited.cases) auto
next
  case (down a c t)
  note IH = down.IH and chunk = down.hyps(2) and vp = down.prems(1) and tp = down.prems(2)
  from down.hyps(3) have ct: "prefix (a @ c) t" by (rule visited_prefix)
  from vp show ?case
  proof (cases rule: visited.cases)
    case here
    from ct tp have "prefix (a @ c) p" by (rule prefix_order.trans)
    with here have "c = []" by simp
    with chunk show ?thesis using is_chunk_nonempty by blast
  next
    case (down c')
    from down(3) have "prefix (a @ c') p" by (rule visited_prefix)
    then obtain r' where r': "p = a @ c' @ r'" by (auto simp: prefix_def)
    from ct obtain r where r: "t = a @ c @ r" by (auto simp: prefix_def)
    from tp r r' have "prefix (c @ r) (c' @ r')" by simp
    with chunk down(2) have "c = c'" by (rule is_chunk_prefix_free)
    with down(3) IH tp show ?thesis by blast
  qed
qed

lemma member_not_doomed:
  assumes "p \<in> S" "visited S a p"
  shows "\<not> doomed S a p"
proof
  assume "doomed S a p"
  then obtain t where t: "visited S a t" "t \<notin> S" "prefix t p" by (auto simp: doomed_def)
  from visited_unique [OF t(1) assms(2) t(3)] t(2) assms(1) show False by auto
qed

section \<open>Members lie under members\<close>

lemma split_slash_hd: "s \<noteq> [] \<Longrightarrow> hd s = CHR ''/'' \<Longrightarrow> hd (split_slash s) = []"
  by (cases s) auto

lemma valid_name_chunk:
  assumes "valid_name name"
  shows "\<exists>c. is_chunk c \<and> (\<forall>T. relativeModule T name = T @ c)"
proof -
  have ne: "name \<noteq> []" using assms by (auto simp: valid_name_def)
  have nh: "hd name \<noteq> CHR ''/''"
  proof
    assume "hd name = CHR ''/''"
    with ne have "hd (split_slash name) = []" by (rule split_slash_hd)
    with assms show False
      by (auto simp: valid_name_def split: list.splits)
  qed
  from assms consider x where "split_slash name = [x]" "x \<noteq> []" "x \<noteq> ''.''" "x \<noteq> ''..''"
      "\<not> prefix ''@'' x"
    | s x where "split_slash name = [s, x]" "prefix ''@'' s" "x \<noteq> []" "x \<noteq> ''.''" "x \<noteq> ''..''"
    by (auto simp: valid_name_def split: list.splits)
  then show ?thesis
  proof cases
    case 1
    have "is_chunk [''node_modules'', x]" using 1(5) by (simp add: is_chunk_def)
    moreover have "\<forall>T. relativeModule T name = T @ [''node_modules'', x]"
      using 1 ne nh by (simp add: relativeModule_def resolve_arg_def seg_step_def)
    ultimately show ?thesis by blast
  next
    case 2
    from 2(2) have s: "s \<noteq> []" "s \<noteq> ''.''" "s \<noteq> ''..''" by auto
    have "is_chunk [''node_modules'', s, x]" using 2(2) by (simp add: is_chunk_def)
    moreover have "\<forall>T. relativeModule T name = T @ [''node_modules'', s, x]"
      using 2 s ne nh by (simp add: relativeModule_def resolve_arg_def seg_step_def)
    ultimately show ?thesis by blast
  qed
qed

lemma search_reach_shape:
  "search_reach fs name p s \<Longrightarrow>
   (\<exists>k. testPath s = (ascend ^^ k) p) \<and>
   (\<forall>d. discoveredPath s = Some d \<longrightarrow> d = relativeModule (testPath s) name)"
proof (induction rule: search_reach.induct)
  case init
  have "testPath (p, None, None) = (ascend ^^ 0) p" by (simp add: testPath_def)
  then have "\<exists>k. testPath (p, None, None) = (ascend ^^ k) p" by (rule exI)
  then show ?case by (simp add: discoveredPath_def)
next
  case (step s)
  then obtain k where k: "testPath s = (ascend ^^ k) p" by blast
  from step(2) have none: "discoveredPath s = None" by (simp add: search_cond_def)
  show ?case
  proof (cases "pathExists fs (relativeModule (testPath s) name)")
    case True
    then have "search_body fs name s =
        (testPath s, Some (relativeModule (testPath s) name), Some (relativeModule (testPath s) name))"
      by (simp add: search_body_def Let_def)
    with k have "testPath (search_body fs name s) = (ascend ^^ k) p"
      by (simp add: testPath_def)
    then have "\<exists>k. testPath (search_body fs name s) = (ascend ^^ k) p" by (rule exI)
    with True show ?thesis by (simp add: search_body_def Let_def testPath_def discoveredPath_def)
  next
    case False
    then have b: "search_body fs name s =
        (ascend (testPath s), discoveredPath s, Some (relativeModule (testPath s) name))"
      by (simp add: search_body_def Let_def)
    have "testPath (search_body fs name s) = (ascend ^^ Suc k) p"
      using b k by (simp add: testPath_def)
    then have "\<exists>k. testPath (search_body fs name s) = (ascend ^^ k) p" by (rule exI)
    with b none show ?thesis by (simp add: discoveredPath_def)
  qed
qed

lemma resolve_shape:
  assumes "resolve fs name p = Some d"
  shows "\<exists>k. d = relativeModule ((ascend ^^ k) p) name"
proof -
  let ?s = "search_loop fs name (p, None, None)"
  have "search_reach fs name p ?s"
    using search_loop_reach [OF search_reach.init] by blast
  from search_reach_shape [OF this] assms show ?thesis
    by (auto simp: resolve_def)
qed

lemma visited_mono: "visited S a t \<Longrightarrow> S \<subseteq> S' \<Longrightarrow> visited S' a t"
proof (induction rule: visited.induct)
  case (here a)
  show ?case by (rule visited.here)
next
  case (down a c t)
  from down.hyps(1) down.prems have "a \<in> S'" by blast
  from this down.hyps(2) show ?case by (rule visited.down) (use down in blast)
qed

lemma visited_snoc: "visited S a m \<Longrightarrow> m \<in> S \<Longrightarrow> is_chunk c \<Longrightarrow> visited S a (m @ c)"
proof (induction rule: visited.induct)
  case (here a)
  from here visited.here [of S "a @ c"] show ?case by (rule visited.down)
next
  case (down a c' t)
  from down.hyps(1,2) show ?case by (rule visited.down) (use down in blast)
qed

lemma visited_last:
  "visited S a p \<Longrightarrow> p \<noteq> a \<Longrightarrow> \<exists>m c. p = m @ c \<and> is_chunk c \<and> visited S a m \<and> m \<in> S"
proof (induction rule: visited.induct)
  case (here a)
  then show ?case by simp
next
  case (down a c t)
  show ?case
  proof (cases "t = a @ c")
    case True
    with down.hyps(1,2) visited.here [of S a] show ?thesis by blast
  next
    case False
    with down.IH obtain m c' where m: "t = m @ c'" "is_chunk c'" "visited S (a @ c) m" "m \<in> S"
      by blast
    from down.hyps(1,2) m(3) have "visited S a m" by (rule visited.down)
    with m show ?thesis by blast
  qed
qed

lemma ascend_chunk: "is_chunk c \<Longrightarrow> ascend (m @ c) = m"
proof -
  assume "is_chunk c"
  then consider x where "c = [''node_modules'', x]"
    | s x where "c = [''node_modules'', s, x]" "prefix ''@'' s"
    unfolding is_chunk_cases by blast
  then show ?thesis
  proof cases
    case 1
    then show ?thesis by (simp add: ascend_unscoped)
  next
    case 2
    from 2(2) have "s \<noteq> ''node_modules''" by auto
    with 2(1) show ?thesis by (simp add: ascend_scoped)
  qed
qed

lemma prefix_ascend: "prefix (ascend p) p"
proof -
  have "prefix (dirname q) q" for q :: path
    by (simp add: dirname_def prefixeq_butlast)
  then have d: "prefix (dirname (dirname q)) q" for q :: path
    using prefix_order.trans by blast
  show ?thesis
  proof (cases "basename (dirname p) \<noteq> ''node_modules''")
    case True
    then have "ascend p = dirname (dirname (dirname p))" by (simp add: ascend_def)
    with d [of "dirname p"] \<open>\<And>q. prefix (dirname q) q\<close> [of p] show ?thesis
      using prefix_order.trans by metis
  next
    case False
    then have "ascend p = dirname (dirname p)" by (simp add: ascend_def)
    with d [of p] show ?thesis by simp
  qed
qed

lemma prefix_ascend_funpow: "prefix ((ascend ^^ k) p) p"
proof (induction k)
  case 0
  show ?case by simp
next
  case (Suc k)
  have "prefix (ascend ((ascend ^^ k) p)) ((ascend ^^ k) p)" by (rule prefix_ascend)
  with Suc show ?case using prefix_order.trans by auto
qed

lemma ascend_members:
  "visited S r p \<Longrightarrow> p \<in> S \<Longrightarrow> prefix r ((ascend ^^ k) p) \<Longrightarrow>
   visited S r ((ascend ^^ k) p) \<and> (ascend ^^ k) p \<in> S"
proof (induction k arbitrary: p)
  case 0
  then show ?case by simp
next
  case (Suc k)
  have step: "(ascend ^^ Suc k) p = (ascend ^^ k) (ascend p)" by (simp add: funpow_swap1)
  show ?case
  proof (cases "p = r")
    case True
    have "prefix r (ascend r)"
      using Suc.prems(3) prefix_ascend_funpow [of k "ascend r"] True step
        prefix_order.trans by metis
    with prefix_ascend [of r] have "ascend r = r" by (simp add: prefix_order.antisym)
    with Suc True step show ?thesis by simp
  next
    case False
    with Suc.prems(1) obtain m c where m: "p = m @ c" "is_chunk c" "visited S r m" "m \<in> S"
      using visited_last by blast
    then have "ascend p = m" by (simp add: ascend_chunk)
    with Suc.IH [OF m(3,4)] Suc.prems(3) step show ?thesis by simp
  qed
qed

lemma found_placed:
  assumes placed: "members_placed r S" and p: "p \<in> S" and name: "valid_name name"
    and root: "root_ok r" and d: "d = relativeModule ((ascend ^^ k) p) name"
    and inside: "prefix r d"
  shows "visited S r d"
proof -
  let ?T = "(ascend ^^ k) p"
  from name obtain c where c: "is_chunk c" "\<forall>T. relativeModule T name = T @ c"
    using valid_name_chunk by blast
  with d have dc: "d = ?T @ c" by simp
  show ?thesis
  proof (cases "prefix r ?T")
    case True
    from True prefix_ascend_funpow [of k p] have "prefix r p" by (rule prefix_order.trans)
    with placed p have "visited S r p" by (simp add: members_placed_def)
    from ascend_members [OF this p True] c(1) dc show ?thesis by (simp add: visited_snoc)
  next
    case False
    with inside dc obtain us where us: "r = ?T @ us" "prefix us c" "us \<noteq> []"
      by (auto simp: prefix_append)
    from c(1) consider x where "c = [''node_modules'', x]"
      | s x where "c = [''node_modules'', s, x]" "prefix ''@'' s"
      unfolding is_chunk_cases by blast
    then have "us = c"
    proof cases
      case 1
      with us(2,3) have "us = [''node_modules''] \<or> us = c" by (auto simp: prefix_Cons)
      moreover have "us \<noteq> [''node_modules'']"
        using root us(1) by (auto simp: root_ok_def basename_def)
      ultimately show ?thesis by simp
    next
      case 2
      with us(2,3) have "us = [''node_modules''] \<or> us = [''node_modules'', s] \<or> us = c"
        by (auto simp: prefix_Cons)
      moreover have "us \<noteq> [''node_modules'']"
        using root us(1) by (auto simp: root_ok_def basename_def)
      moreover have "us \<noteq> [''node_modules'', s]"
        using root us(1) 2(2) by (auto simp: root_ok_def basename_def)
      ultimately show ?thesis by simp
    qed
    with us(1) dc have "d = r" by simp
    then show ?thesis by (simp add: visited.here)
  qed
qed

lemma members_placed_insert:
  assumes "members_placed r S" "prefix r p \<longrightarrow> visited S r p"
  shows "members_placed r (insert p S)"
  unfolding members_placed_def
proof (intro ballI impI)
  fix q assume q: "q \<in> insert p S" "prefix r q"
  have "visited S r q"
  proof (cases "q = p")
    case True
    with assms(2) q(2) show ?thesis by simp
  next
    case False
    with q assms(1) show ?thesis by (simp add: members_placed_def)
  qed
  then show "visited (insert p S) r q" by (rule visited_mono) auto
qed

lemma loadPackageJSON_valid:
  assumes "valid_names fs" "loadPackageJSON fs p = Inr (Some pJ)"
  shows "\<forall>name \<in> set (dependencies pJ) \<union> set (optionalDependencies pJ). valid_name name"
proof -
  from assms(2) have "map_of fs (p @ [''package.json'']) = Some (File (Json pJ))"
    by (auto simp: loadPackageJSON_def Let_def split: if_splits option.splits node.splits
        content.splits)
  then have "(p @ [''package.json''], File (Json pJ)) \<in> set fs" by (rule map_of_SomeD)
  with assms(1) show ?thesis by (fastforce simp: valid_names_def)
qed

lemma visit_placed:
  "valid_names fs \<and> root_ok r \<and> members_placed r (set (prodPaths w))
     \<and> (prefix r p \<longrightarrow> visited (set (prodPaths w)) r p) \<longrightarrow>
   loadProductionDependenciesForModule n fs p am w = Some (Inr w') \<longrightarrow>
     members_placed r (set (prodPaths w'))"
  "valid_names fs \<and> root_ok r \<and> members_placed r (set (prodPaths w))
     \<and> p \<in> set (prodPaths w) \<and> (\<forall>name \<in> set names. valid_name name) \<longrightarrow>
   forEachModuleName n fs names p am w = Some (Inr w') \<longrightarrow>
     members_placed r (set (prodPaths w'))"
  "valid_names fs \<and> root_ok r \<and> members_placed r (set (prodPaths w))
     \<and> p \<in> set (prodPaths w) \<and> valid_name name \<longrightarrow>
   loadProductionDependenciesForModuleInModule n fs name p am w = Some (Inr w') \<longrightarrow>
     members_placed r (set (prodPaths w'))"
proof (induction n fs p am w and n fs names p am w and n fs name p am w
    arbitrary: w' and w' and w' rule: visit_induct)
  case (Zero fs p am w)
  show ?case by simp
next
  case (Visit n fs p am w)
  let ?w1 = "w\<lparr>prodPaths := set_add p (prodPaths w), loaded := loaded w @ [p]\<rparr>"
  show ?case
  proof (intro impI)
    assume pre: "valid_names fs \<and> root_ok r \<and> members_placed r (set (prodPaths w))
       \<and> (prefix r p \<longrightarrow> visited (set (prodPaths w)) r p)"
      and res: "loadProductionDependenciesForModule (Suc n) fs p am w = Some (Inr w')"
    from pre have inv1: "members_placed r (set (prodPaths ?w1))"
      by (simp add: members_placed_insert)
    from res consider "w' = w" | "p \<notin> set (prodPaths w)" "w' = ?w1"
      | pJ w2 where "p \<notin> set (prodPaths w)" "loadPackageJSON fs p = Inr (Some pJ)"
        "forEachModuleName n fs (dependencies pJ) p am ?w1 = Some (Inr w2)"
        "forEachModuleName n fs (optionalDependencies pJ) p True w2 = Some (Inr w')"
      unfolding forModule_Suc_Inr by (elim disjE conjE exE) blast+
    then show "members_placed r (set (prodPaths w'))"
    proof cases
      case 1
      with pre show ?thesis by simp
    next
      case 2
      with inv1 show ?thesis by simp
    next
      case 3
      from pre 3(2) have names:
        "\<forall>name \<in> set (dependencies pJ) \<union> set (optionalDependencies pJ). valid_name name"
        using loadPackageJSON_valid by blast
      have p1: "p \<in> set (prodPaths ?w1)" by simp
      from Visit(1) [OF 3(1,2)] pre inv1 p1 names 3(3)
      have inv2: "members_placed r (set (prodPaths w2))" by blast
      from visit_mono(2) 3(3) p1 have p2: "p \<in> set (prodPaths w2)" by blast
      from Visit(2) [OF 3(1,2,3)] pre inv2 p2 names 3(4) show ?thesis by blast
    qed
  qed
next
  case (Nil n fs p am w)
  show ?case by clarsimp
next
  case (Cons n fs name rest p am w)
  show ?case
  proof (intro impI)
    assume pre: "valid_names fs \<and> root_ok r \<and> members_placed r (set (prodPaths w))
       \<and> p \<in> set (prodPaths w) \<and> (\<forall>name \<in> set (name # rest). valid_name name)"
      and res: "forEachModuleName n fs (name # rest) p am w = Some (Inr w')"
    from res obtain w1 where
      a: "loadProductionDependenciesForModuleInModule n fs name p am w = Some (Inr w1)"
      and b: "forEachModuleName n fs rest p am w1 = Some (Inr w')"
      unfolding forEach_Cons_Inr by blast
    from pre have "valid_name name" "\<forall>name \<in> set rest. valid_name name" by simp_all
    with Cons(1) pre a have inv1: "members_placed r (set (prodPaths w1))" by blast
    from visit_mono(3) a pre have "p \<in> set (prodPaths w1)" by blast
    with Cons(2) [OF a] pre inv1 \<open>\<forall>name \<in> set rest. valid_name name\<close> b
    show "members_placed r (set (prodPaths w'))" by blast
  qed
next
  case (InModule n fs name p am w)
  show ?case
  proof (cases "resolve fs name p")
    case None
    then show ?thesis by (auto simp: inModule_None)
  next
    case (Some d)
    show ?thesis
    proof (intro impI)
      assume pre: "valid_names fs \<and> root_ok r \<and> members_placed r (set (prodPaths w))
         \<and> p \<in> set (prodPaths w) \<and> valid_name name"
        and res: "loadProductionDependenciesForModuleInModule n fs name p am w = Some (Inr w')"
      from Some obtain k where k: "d = relativeModule ((ascend ^^ k) p) name"
        using resolve_shape by blast
      have "prefix r d \<longrightarrow> visited (set (prodPaths w)) r d"
        using found_placed [of r "set (prodPaths w)" p name d k] pre k by blast
      moreover from res Some have "loadProductionDependenciesForModule n fs d am w = Some (Inr w')"
        by (simp add: inModule_Some)
      ultimately show "members_placed r (set (prodPaths w'))"
        using InModule [OF Some] pre by blast
    qed
  qed
qed

section \<open>The pruner returns\<close>

text \<open>
  No module directory lies deeper than the longest path of the table, so the bound on the
  depth of the recursion that \<open>prune\<close> passes is never reached.
\<close>

lemma max_depth_le_iff: "max_depth fs \<le> D \<longleftrightarrow> (\<forall>e \<in> set fs. length (fst e) \<le> D)"
  by (induction fs) (auto simp: max_depth_def)

lemma pathExists_depth: "pathExists fs p \<Longrightarrow> max_depth fs \<le> D \<Longrightarrow> length p \<le> D"
  unfolding pathExists_iff max_depth_le_iff by auto

lemma prune_subset:
  "\<forall>fs'. pruneModule n w fs p = Some (Inr fs') \<longrightarrow> set fs' \<subseteq> set fs"
  "\<forall>fs'. pruneSubModules n w nmp names fs = Some (Inr fs') \<longrightarrow> set fs' \<subseteq> set fs"
  "\<forall>fs'. pruneSubScopedModules n w sp subs fs = Some (Inr fs') \<longrightarrow> set fs' \<subseteq> set fs"
proof (induction n w fs p and n w nmp names fs and n w sp subs fs rule: prune_induct)
  case (Zero w fs p)
  show ?case by simp
next
  case (Module n w fs p)
  show ?case
    unfolding pruneModule_Suc_Inr using Module by (auto simp: remove_def)
next
  case (Nil n w nmp fs)
  show ?case by simp
next
  case (Cons n w nmp x rest fs)
  show ?case
    unfolding pruneSubModules_Cons_Inr using Cons by blast
next
  case (ScopedNil n w sp fs)
  show ?case by simp
next
  case (ScopedCons n w sp y rest fs)
  show ?case
    unfolding pruneSubScopedModules_Cons_Inr using ScopedCons by blast
qed

lemma max_depth_subset: "set fs' \<subseteq> set fs \<Longrightarrow> max_depth fs \<le> D \<Longrightarrow> max_depth fs' \<le> D"
  unfolding max_depth_le_iff by blast

lemma readdir_depth:
  assumes "readdir fs d = Inr names" "names \<noteq> []" "max_depth fs \<le> D"
  shows "length d + 1 \<le> D"
proof -
  from assms(2) obtain x where "x \<in> set names" by (cases names) auto
  with assms(1) have "pathExists fs (d @ [x])" by (simp add: readdir_iff)
  from pathExists_depth [OF this assms(3)] show ?thesis by simp
qed

lemma prune_total:
  "0 < n \<and> max_depth fs \<le> D \<and> D < n + length p \<longrightarrow> pruneModule n w fs p \<noteq> None"
  "max_depth fs \<le> D \<and> D < n + length nmp + 1 \<and> (names \<noteq> [] \<longrightarrow> length nmp + 1 \<le> D) \<longrightarrow>
     pruneSubModules n w nmp names fs \<noteq> None"
  "max_depth fs \<le> D \<and> D < n + length sp + 1 \<and> (subs \<noteq> [] \<longrightarrow> length sp + 1 \<le> D) \<longrightarrow>
     pruneSubScopedModules n w sp subs fs \<noteq> None"
proof (induction n w fs p and n w nmp names fs and n w sp subs fs rule: prune_induct)
  case (Zero w fs p)
  show ?case by simp
next
  case (Module n w fs p)
  show ?case
  proof (intro impI)
    assume pre: "0 < Suc n \<and> max_depth fs \<le> D \<and> D < Suc n + length p"
    show "pruneModule (Suc n) w fs p \<noteq> None"
    proof (cases "p \<in> set (prodPaths w) \<and> pathExists fs (p @ [''node_modules''])")
      case False
      then show ?thesis by (auto simp: Let_def)
    next
      case True
      show ?thesis
      proof (cases "readdir fs (p @ [''node_modules''])")
        case (Inl e)
        with True show ?thesis by (simp add: Let_def)
      next
        case (Inr names)
        have "names \<noteq> [] \<longrightarrow> length (p @ [''node_modules'']) + 1 \<le> D"
          using readdir_depth [OF Inr] pre by blast
        with Module [of names] True Inr pre
        have "pruneSubModules n w (p @ [''node_modules'']) names fs \<noteq> None" by simp
        with True Inr show ?thesis by (simp add: Let_def)
      qed
    qed
  qed
next
  case (Nil n w nmp fs)
  show ?case by simp
next
  case (Cons n w nmp x rest fs)
  show ?case
  proof (intro impI)
    assume pre: "max_depth fs \<le> D \<and> D < n + length nmp + 1 \<and>
        (x # rest \<noteq> [] \<longrightarrow> length nmp + 1 \<le> D)"
    then have n: "0 < n" and len: "length nmp + 1 \<le> D" by simp_all
    have rest: "pruneSubModules n w nmp rest fs1 \<noteq> None" if "set fs1 \<subseteq> set fs"
      and "(\<not> prefix ''@'' x \<and> pruneModule n w fs (nmp @ [x]) = Some (Inr fs1)) \<or>
        (\<exists>subs. prefix ''@'' x \<and> readdir fs (nmp @ [x]) = Inr subs \<and>
           pruneSubScopedModules n w (nmp @ [x]) subs fs = Some (Inr fs1))" for fs1
    proof -
      from that(1) pre have "max_depth fs1 \<le> D" using max_depth_subset by blast
      with Cons(3,4) that(2) pre len show ?thesis by blast
    qed
    show "pruneSubModules n w nmp (x # rest) fs \<noteq> None"
    proof (cases "prefix ''@'' x")
      case False
      with Cons(1) pre n obtain r where r: "pruneModule n w fs (nmp @ [x]) = Some r" by auto
      show ?thesis
      proof (cases r)
        case (Inl e)
        with r False show ?thesis by simp
      next
        case (Inr fs1)
        with r prune_subset(1) have "set fs1 \<subseteq> set fs" by blast
        with rest [of fs1] r Inr False have "pruneSubModules n w nmp rest fs1 \<noteq> None" by simp
        with r Inr False show ?thesis by simp
      qed
    next
      case True
      show ?thesis
      proof (cases "readdir fs (nmp @ [x])")
        case (Inl e)
        with True show ?thesis by simp
      next
        case (Inr subs)
        have "subs \<noteq> [] \<longrightarrow> length (nmp @ [x]) + 1 \<le> D"
          using readdir_depth [OF Inr] pre by blast
        with Cons(2) [OF True Inr] pre obtain r where
          r: "pruneSubScopedModules n w (nmp @ [x]) subs fs = Some r" by auto
        show ?thesis
        proof (cases r)
          case (Inl e)
          with r True Inr show ?thesis by simp
        next
          case Inr2: (Inr fs1)
          with r prune_subset(3) have "set fs1 \<subseteq> set fs" by blast
          with rest [of fs1] r Inr2 True Inr have "pruneSubModules n w nmp rest fs1 \<noteq> None"
            by simp
          with r Inr2 True Inr show ?thesis by simp
        qed
      qed
    qed
  qed
next
  case (ScopedNil n w sp fs)
  show ?case by simp
next
  case (ScopedCons n w sp y rest fs)
  show ?case
  proof (intro impI)
    assume pre: "max_depth fs \<le> D \<and> D < n + length sp + 1 \<and>
        (y # rest \<noteq> [] \<longrightarrow> length sp + 1 \<le> D)"
    then have n: "0 < n" and len: "length sp + 1 \<le> D" by simp_all
    from ScopedCons(1) pre n obtain r where r: "pruneModule n w fs (sp @ [y]) = Some r" by auto
    show "pruneSubScopedModules n w sp (y # rest) fs \<noteq> None"
    proof (cases r)
      case (Inl e)
      with r show ?thesis by simp
    next
      case (Inr fs1)
      with r prune_subset(1) have "set fs1 \<subseteq> set fs" by blast
      with pre have "max_depth fs1 \<le> D" using max_depth_subset by blast
      with ScopedCons(2) r Inr pre len have "pruneSubScopedModules n w sp rest fs1 \<noteq> None"
        by blast
      with r Inr show ?thesis by simp
    qed
  qed
qed

lemma prune_returns: "prune fs rootModule \<noteq> None"
proof (cases "loadProductionDependencies fs rootModule")
  case None
  with loadProductionDependencies_total show ?thesis by blast
next
  case (Some r)
  show ?thesis
  proof (cases r)
    case (Inl e)
    with Some show ?thesis by (simp add: prune_def)
  next
    case (Inr w)
    have "pruneModule (Suc (max_depth fs)) w fs rootModule \<noteq> None"
      using prune_total(1) [of "Suc (max_depth fs)" fs "max_depth fs" rootModule w] by simp
    with Some Inr show ?thesis by (simp add: prune_def)
  qed
qed

section \<open>What pruning leaves on disk\<close>

lemma root_in_prodPaths:
  "loadProductionDependencies fs rootModule = Some (Inr w) \<Longrightarrow> rootModule \<in> set (prodPaths w)"
  unfolding loadProductionDependencies_def using visit_mono(1) by blast

text \<open>
  Claim C1, as amended. Let the filesystem be a tree. If the production set was built and
  \<^verbatim>\<open>prune\<close> completed, then every module directory that is left under the root's
  \<^verbatim>\<open>node_modules\<close> tree is a member of the set; every module directory there that existed
  and is no member is gone; nothing was added; the root and every member that does not lie
  under the root are still what they were. If moreover every descriptor lists package names
  only, and the root is itself neither a \<^verbatim>\<open>node_modules\<close> nor a scope directory, then
  every member is still what it was.
\<close>

theorem prune_keeps_members_only:
  assumes "wf_fs fs"
    and "loadProductionDependencies fs rootModule = Some (Inr w)"
    and "prune fs rootModule = Some (Inr fs')"
  shows "(\<forall>p. below rootModule p \<and> pathExists fs' p \<longrightarrow> p \<in> set (prodPaths w))
       \<and> (\<forall>p. below rootModule p \<and> pathExists fs p \<and> p \<notin> set (prodPaths w) \<longrightarrow>
             \<not> pathExists fs' p)
       \<and> set fs' \<subseteq> set fs
       \<and> map_of fs' rootModule = map_of fs rootModule
       \<and> (\<forall>p \<in> set (prodPaths w). \<not> prefix rootModule p \<longrightarrow> map_of fs' p = map_of fs p)
       \<and> (valid_names fs \<and> root_ok rootModule \<longrightarrow>
            (\<forall>p \<in> set (prodPaths w). map_of fs' p = map_of fs p))"
proof -
  let ?S = "set (prodPaths w)"
  from assms(2,3) have "pruneModule (Suc (max_depth fs)) w fs rootModule = Some (Inr fs')"
    by (simp add: prune_def)
  with assms(1) have fs': "fs' = without (doomed ?S rootModule) fs"
    using prune_result(1) by blast
  have gone: "\<not> pathExists fs' p" if "below rootModule p" "p \<notin> ?S" for p
    using below_nonmember_doomed [OF that] by (simp add: fs' pathExists_without)
  have sub: "set fs' \<subseteq> set fs" by (auto simp: fs' without_def)
  have "rootModule \<in> ?S"
    using root_in_prodPaths [OF assms(2)] .
  then have "\<not> doomed ?S rootModule rootModule"
    using visited.here by (rule member_not_doomed)
  then have root: "map_of fs' rootModule = map_of fs rootModule"
    by (simp add: fs' map_of_without)
  have outside: "map_of fs' p = map_of fs p" if "\<not> prefix rootModule p" for p
  proof -
    from that have "\<not> doomed ?S rootModule p" using doomed_prefix by blast
    then show ?thesis by (simp add: fs' map_of_without)
  qed
  have kept: "map_of fs' p = map_of fs p"
    if names: "valid_names fs" and ok: "root_ok rootModule" and p: "p \<in> ?S" for p
  proof (cases "prefix rootModule p")
    case True
    have "members_placed rootModule (set (prodPaths \<lparr>prodPaths = [], loaded = []\<rparr>))"
      by (simp add: members_placed_def)
    moreover have "prefix rootModule rootModule \<longrightarrow>
        visited (set (prodPaths \<lparr>prodPaths = [], loaded = []\<rparr>)) rootModule rootModule"
      by (simp add: visited.here)
    ultimately have placed: "members_placed rootModule ?S"
      using visit_placed(1) [of fs rootModule "\<lparr>prodPaths = [], loaded = []\<rparr>" rootModule
          "length fs + 2" False w] names ok assms(2)
      unfolding loadProductionDependencies_def by blast
    with True p have "visited ?S rootModule p" by (simp add: members_placed_def)
    with p have "\<not> doomed ?S rootModule p" by (rule member_not_doomed)
    then show ?thesis by (simp add: fs' map_of_without)
  next
    case False
    then show ?thesis by (rule outside)
  qed
  from gone sub root outside kept show ?thesis by blast
qed

lemma scenario_install_prune:
  "prune (scenario_install [''b'']) [''proj''] = Some (Inr scenario_pruned)"
  by code_simp

theorem prune_keeps_members_only_witness:
  "prune (scenario_install [''b'']) [''proj''] = Some (Inr scenario_pruned)
   \<and> below [''proj''] [''proj'', ''node_modules'', ''b'']
   \<and> pathExists (scenario_install [''b'']) [''proj'', ''node_modules'', ''b'']
   \<and> \<not> pathExists scenario_pruned [''proj'', ''node_modules'', ''b'']
   \<and> valid_names (scenario_install [''b'']) \<and> root_ok [''proj'']
   \<and> map_of scenario_pruned [''proj'', ''node_modules'', ''a'']
       = map_of (scenario_install [''b'']) [''proj'', ''node_modules'', ''a'']"
proof -
  have wf: "wf_fs (scenario_install [''b''])"
    by (simp add: wf_fs_def scenario_install_def)
  have names: "valid_names (scenario_install [''b''])"
    by (simp add: valid_names_def valid_name_def scenario_install_def)
  have root: "root_ok [''proj'']"
    by (simp add: root_ok_def basename_def)
  have "is_chunk [''node_modules'', ''b'']" by (simp add: is_chunk_def)
  then have b: "below [''proj''] ([''proj''] @ [''node_modules'', ''b''])" by (rule below.child)
  have e: "pathExists (scenario_install [''b'']) [''proj'', ''node_modules'', ''b'']"
    by (simp add: pathExists_def scenario_install_def)
  from prune_keeps_members_only [OF wf scenario_install_run scenario_install_prune]
    names root b e scenario_install_prune
  show ?thesis by auto
qed

text \<open>
  The claim as it was worded fails: with the dependency key \<^verbatim>\<open>b/node_modules/c\<close> the
  directory \<open>c\<close> inside \<open>b\<close> is a member, \<open>b\<close> is none, and pruning deletes \<open>b\<close> with
  the member in it.
\<close>

theorem prune_deletes_member_counterexample:
  "wf_fs nested_key_install
   \<and> loadProductionDependencies nested_key_install [''proj''] =
       Some (Inr \<lparr>prodPaths = [[''proj''],
                                [''proj'', ''node_modules'', ''b'', ''node_modules'', ''c'']],
                   loaded = [[''proj''],
                             [''proj'', ''node_modules'', ''b'', ''node_modules'', ''c'']]\<rparr>)
   \<and> prune nested_key_install [''proj''] = Some (Inr nested_key_pruned)
   \<and> pathExists nested_key_install [''proj'', ''node_modules'', ''b'', ''node_modules'', ''c'']
   \<and> \<not> pathExists nested_key_pruned [''proj'', ''node_modules'', ''b'', ''node_modules'', ''c'']"
proof -
  have "wf_fs nested_key_install"
    by (simp add: wf_fs_def nested_key_install_def)
  moreover have "loadProductionDependencies nested_key_install [''proj''] =
       Some (Inr \<lparr>prodPaths = [[''proj''],
                                [''proj'', ''node_modules'', ''b'', ''node_modules'', ''c'']],
                   loaded = [[''proj''],
                             [''proj'', ''node_modules'', ''b'', ''node_modules'', ''c'']]\<rparr>)"
    by code_simp
  moreover have "prune nested_key_install [''proj''] = Some (Inr nested_key_pruned)"
    by code_simp
  ultimately show ?thesis
    by (simp add: pathExists_def nested_key_install_def nested_key_pruned_def)
qed

text \<open>
  The condition on the root is needed as well: pruning the root \<^verbatim>\<open>/node_modules\<close>, whose
  descriptors list package names only, deletes the member \<open>y\<close>, which lies in the directory
  \<^verbatim>\<open>/node_modules/node_modules/node_modules\<close> that is no member.
\<close>

lemma prune_node_modules_root:
  "valid_names node_modules_root_install \<and> wf_fs node_modules_root_install
   \<and> (case loadProductionDependencies node_modules_root_install [''node_modules''] of
        Some (Inr w) \<Rightarrow>
          [''node_modules'', ''node_modules'', ''node_modules'', ''y''] \<in> set (prodPaths w)
      | _ \<Rightarrow> False)
   \<and> (case prune node_modules_root_install [''node_modules''] of
        Some (Inr fs') \<Rightarrow>
          \<not> pathExists fs' [''node_modules'', ''node_modules'', ''node_modules'', ''y'']
      | _ \<Rightarrow> False)"
proof -
  have "valid_names node_modules_root_install"
    by (simp add: valid_names_def valid_name_def node_modules_root_install_def)
  moreover have "wf_fs node_modules_root_install"
    by (simp add: wf_fs_def node_modules_root_install_def)
  moreover have "(case loadProductionDependencies node_modules_root_install [''node_modules''] of
        Some (Inr w) \<Rightarrow>
          [''node_modules'', ''node_modules'', ''node_modules'', ''y''] \<in> set (prodPaths w)
      | _ \<Rightarrow> False)"
    by code_simp
  moreover have "(case prune node_modules_root_install [''node_modules''] of
        Some (Inr fs') \<Rightarrow>
          \<not> pathExists fs' [''node_modules'', ''node_modules'', ''node_modules'', ''y'']
      | _ \<Rightarrow> False)"
    by code_simp
  ultimately show ?thesis by simp
qed

end
